theory Spec2Isabelle
  imports
    Complex_Main
    "HOL-Library.Log_Nat"
    "HOL-Library.AList"
    "HOL-Library.Sublist"
    "HOL-Library.Multiset"
begin

section \<open>JavaScript numbers\<close>

text \<open>
  The dashboard computes with JavaScript numbers, which are IEEE 754 binary64 values.
  A finite number is modelled by the rational it denotes; every arithmetic operation
  rounds its exact result to the nearest value with a 53-bit significand, ties to the
  even significand. Exponent range (overflow, subnormals) is not modelled: every
  quotient the dashboard forms lies between \<open>2\<^sup>-\<^sup>3\<^sup>2\<close> and \<open>100\<close>.
\<close>

definition round_half_even :: "int \<Rightarrow> int \<Rightarrow> int" where
  "round_half_even n d =
     (let q = n div d; r = n mod d
      in if 2 * r < d then q
         else if d < 2 * r then q + 1
         else if even q then q else q + 1)"

text \<open>
  \<open>binary64_quot n d\<close> is the binary64 value nearest to \<open>n / d\<close> (\<open>n \<ge> 0\<close>, \<open>d > 0\<close>).
  With \<open>bn\<close>, \<open>bd\<close> the bit lengths of \<open>n\<close> and \<open>d\<close>, the scale \<open>k\<close> is chosen so
  that \<open>n * 2 ^ k / (d * 2 ^ bn)\<close> lies in \<open>[2\<^sup>5\<^sup>2, 2\<^sup>5\<^sup>3)\<close>; its rounding is the
  significand.
\<close>

definition binary64_quot :: "int \<Rightarrow> int \<Rightarrow> rat" where
  "binary64_quot n d =
     (if n = 0 then 0
      else let bn = nat (bitlen n); bd = nat (bitlen d);
               k = 52 + bd + (if n * 2 ^ bd < d * 2 ^ bn then 1 else 0);
               m = round_half_even (n * 2 ^ k) (d * 2 ^ bn)
           in of_int (m * 2 ^ bn) / of_int (2 ^ k))"

definition binary64 :: "rat \<Rightarrow> rat" where
  "binary64 q =
     (let (n, d) = quotient_of q
      in if n < 0 then - binary64_quot (- n) d else binary64_quot n d)"

text \<open>
  A number is finite, \<open>NaN\<close> or \<open>Infinity\<close> (negative infinity never arises here: no
  operand is negative where a division by zero could be reached).
\<close>

datatype number = Fin rat | NaN | Infinity

fun js_add :: "number \<Rightarrow> number \<Rightarrow> number" where
  "js_add (Fin a) (Fin b) = Fin (binary64 (a + b))"
| "js_add (Fin a) NaN = NaN"
| "js_add (Fin a) Infinity = Infinity"
| "js_add NaN _ = NaN"
| "js_add Infinity NaN = NaN"
| "js_add Infinity (Fin b) = Infinity"
| "js_add Infinity Infinity = Infinity"

fun times100 :: "number \<Rightarrow> number" where
  "times100 (Fin x) = Fin (binary64 (x * 100))"
| "times100 NaN = NaN"
| "times100 Infinity = Infinity"

text \<open>\<open>Math.round\<close>: the nearest integer, a tie going to the larger one.\<close>

fun Math_round :: "number \<Rightarrow> number" where
  "Math_round (Fin x) = Fin (of_int \<lfloor>x + 1 / 2\<rfloor>)"
| "Math_round NaN = NaN"
| "Math_round Infinity = Infinity"

section \<open>Rows of the data store\<close>

record status_row =
  status :: string

record blog_post = status_row +
  post_id :: string
  title :: string
  category :: string
  created_at :: int

record comment = status_row +
  comment_id :: string
  blog_post_id :: string

record event =
  registered :: int

record RSVP =
  rsvp_id :: string
  rsvp_name :: string
  email :: string
  phone :: string
  rsvp_created_at :: string
  event_id :: string
  events_title :: string

text \<open>
  What awaiting a query gives: \<open>{ data: rows }\<close>, \<open>{ data: null }\<close> (the client reports
  the error in the result), or a rejected promise.
\<close>

datatype 'a response = Data "'a list" | NoData | Throws

record responses =
  blogs :: "blog_post response"
  comments :: "comment response"
  events :: "event response"
  posts :: "blog_post response"
  postComments :: "string \<Rightarrow> comment response"
  latency :: "nat \<Rightarrow> nat"
  allPosts :: "blog_post response"

text \<open>
  \<open>postComments r i\<close> answers the approved-comment lookup for the post with id \<open>i\<close>;
  \<open>latency r n\<close> is the time the lookup issued for the \<open>n\<close>-th post takes to settle.
\<close>

text \<open>
  Modelled from the spec: the external \<open>readRows\<close> capability with an equality filter, an
  order and a limit, for the query
  \<open>.eq('status', 'published').order('created_at', { ascending: false }).limit(5)\<close>.
\<close>

definition topPostsQuery :: "blog_post list \<Rightarrow> blog_post list" where
  "topPostsQuery table =
     take 5 (sort_key (\<lambda>p. - created_at p) (filter (\<lambda>p. status p = ''published'') table))"

section \<open>Analytics dashboard\<close>

subsection \<open>Component state\<close>

record stats =
  total :: nat

record blog_stats = stats +
  published :: nat
  draft :: nat

record comment_stats = stats +
  approved :: nat
  pending :: nat

record event_stats = stats +
  totalRegistrations :: number

record top_post =
  tp_title :: string
  tp_comments :: nat

text \<open>
  A property value of the \<open>categoryCounts\<close> object: a count, or the string that
  \<open>(acc[k] || 0) + 1\<close> builds when \<open>acc[k]\<close> is found on \<open>Object.prototype\<close>: \<open>Text k n\<close> is
  the text of \<open>Object.prototype[k]\<close> followed by \<open>n\<close> characters \<open>1\<close>. Such a string
  never reads as a number.
\<close>

datatype jsvalue = Num nat | Text string nat

record category_entry =
  name :: string
  views :: jsvalue
  percentage :: number

record dashboard =
  blogStats :: blog_stats
  commentStats :: comment_stats
  eventStats :: event_stats
  topPosts :: "top_post list"
  categoryPerformance :: "category_entry list"
  loading :: bool

definition initialState :: dashboard where
  "initialState =
     \<lparr>blogStats = \<lparr>total = 0, published = 0, draft = 0\<rparr>,
      commentStats = \<lparr>total = 0, approved = 0, pending = 0\<rparr>,
      eventStats = \<lparr>total = 0, totalRegistrations = Fin 0\<rparr>,
      topPosts = [],
      categoryPerformance = [],
      loading = True\<rparr>"

subsection \<open>Status counts and the registration sum\<close>

definition countStatus :: "string \<Rightarrow> ('a status_row_scheme) list \<Rightarrow> nat" where
  "countStatus c rows = length (filter (\<lambda>b. status b = c) rows)"

definition blogStatsOf :: "blog_post list \<Rightarrow> blog_stats" where
  "blogStatsOf bs =
     \<lparr>total = length bs,
      published = countStatus ''published'' bs,
      draft = countStatus ''draft'' bs\<rparr>"

definition commentStatsOf :: "comment list \<Rightarrow> comment_stats" where
  "commentStatsOf cs =
     \<lparr>total = length cs,
      approved = countStatus ''approved'' cs,
      pending = countStatus ''pending'' cs\<rparr>"

definition eventStatsOf :: "event list \<Rightarrow> event_stats" where
  "eventStatsOf es =
     \<lparr>total = length es,
      totalRegistrations =
        foldl (\<lambda>sum e. js_add sum (Fin (of_int (registered e)))) (Fin 0) es\<rparr>"

subsection \<open>Top posts\<close>

datatype 'a settled = Fulfilled 'a | Rejected

text \<open>The async callback mapped over the posts: \<open>comments?.length || 0\<close>.\<close>

definition commentCount :: "responses \<Rightarrow> blog_post \<Rightarrow> top_post settled" where
  "commentCount r post =
     (case postComments r (post_id post) of
        Throws \<Rightarrow> Rejected
      | NoData \<Rightarrow> Fulfilled \<lparr>tp_title = title post, tp_comments = 0\<rparr>
      | Data cs \<Rightarrow> Fulfilled \<lparr>tp_title = title post, tp_comments = length cs\<rparr>)"

text \<open>
  \<open>Promise.all\<close>: the promises settle in the order given; a fulfilled value is stored at
  the index of its promise, the first rejection rejects the whole. The order lists
  every index once (\<open>completion_order\<close> is a permutation of the indices), so an index
  out of range never occurs and every slot is filled when the order is exhausted.
\<close>

fun Promise_all :: "nat list \<Rightarrow> 'a settled list \<Rightarrow> 'a option list \<Rightarrow> 'a list option" where
  "Promise_all [] ps slots = those slots"
| "Promise_all (i # is) ps slots =
     (if i < length ps
      then (case ps ! i of
              Rejected \<Rightarrow> None
            | Fulfilled v \<Rightarrow> Promise_all is ps (slots[i := Some v]))
      else Promise_all is ps slots)"

definition completion_order :: "(nat \<Rightarrow> nat) \<Rightarrow> nat \<Rightarrow> nat list" where
  "completion_order lat n = sort_key lat [0..<n]"

definition postsWithComments :: "responses \<Rightarrow> blog_post list \<Rightarrow> top_post list option" where
  "postsWithComments r ps =
     Promise_all (completion_order (latency r) (length ps)) (map (commentCount r) ps)
       (replicate (length ps) None)"

subsection \<open>Category performance\<close>

text \<open>
  The accumulator \<open>{}\<close> is an association list of its own properties in creation order.
  Its prototype is \<open>Object.prototype\<close>, whose properties a lookup also finds.
\<close>

definition Object_prototype_keys :: "string list" where
  "Object_prototype_keys =
     [''constructor'', ''__defineGetter__'', ''__defineSetter__'', ''hasOwnProperty'',
      ''__lookupGetter__'', ''__lookupSetter__'', ''isPrototypeOf'',
      ''propertyIsEnumerable'', ''toString'', ''valueOf'', ''toLocaleString'']"

text \<open>
  One step of the reduce, \<open>acc[k] = (acc[k] || 0) + 1\<close>. An own count is incremented, an
  own string gets another \<open>1\<close> appended. Without an own property the lookup goes to the
  prototype: \<open>__proto__\<close> is an accessor there whose setter ignores a string, so nothing
  is stored; an inherited method is truthy and \<open>+ 1\<close> turns it into a string; anything
  else is \<open>undefined\<close> and the count starts at 1.
\<close>

definition bump :: "(string \<times> jsvalue) list \<Rightarrow> string \<Rightarrow> (string \<times> jsvalue) list" where
  "bump acc k =
     (case map_of acc k of
        Some (Num n) \<Rightarrow> AList.update k (Num (n + 1)) acc
      | Some (Text p n) \<Rightarrow> AList.update k (Text p (n + 1)) acc
      | None \<Rightarrow>
          if k = ''__proto__'' then acc
          else if k \<in> set Object_prototype_keys then AList.update k (Text k 1) acc
          else AList.update k (Num 1) acc)"

text \<open>
  \<open>Object.entries\<close> lists array-index keys first (canonical decimal strings below
  \<open>2\<^sup>3\<^sup>2 - 1\<close>) in ascending numeric order, then the other keys in creation order.
\<close>

definition digit_of :: "char \<Rightarrow> int option" where
  "digit_of c =
     (let n = int (of_char c :: nat) in if 48 \<le> n \<and> n \<le> 57 then Some (n - 48) else None)"

definition array_index :: "string \<Rightarrow> int option" where
  "array_index s =
     (if s = [] \<or> (\<exists>c \<in> set s. digit_of c = None) \<or> (hd s = CHR ''0'' \<and> s \<noteq> ''0'')
      then None
      else let v = foldl (\<lambda>a c. 10 * a + the (digit_of c)) 0 s
           in if v < 4294967295 then Some v else None)"

definition Object_entries :: "(string \<times> 'v) list \<Rightarrow> (string \<times> 'v) list" where
  "Object_entries obj =
     sort_key (\<lambda>(k, v). the (array_index k)) (filter (\<lambda>(k, v). array_index k \<noteq> None) obj)
     @ filter (\<lambda>(k, v). array_index k = None) obj"

definition js_div :: "jsvalue \<Rightarrow> nat \<Rightarrow> number" where
  "js_div cnt tot =
     (case cnt of
        Text p n \<Rightarrow> NaN
      | Num c \<Rightarrow>
          if tot = 0 then (if c = 0 then NaN else Infinity)
          else Fin (binary64_quot (int c) (int tot)))"

definition categoryCounts :: "blog_post list \<Rightarrow> (string \<times> jsvalue) list" where
  "categoryCounts rows = foldl (\<lambda>acc post. bump acc (category post)) [] rows"

definition categoryData :: "blog_post list \<Rightarrow> category_entry list" where
  "categoryData rows =
     (let tot = length rows
      in map (\<lambda>(name, cnt).
                \<lparr>name = name, views = cnt,
                 percentage = Math_round (times100 (js_div cnt tot))\<rparr>)
             (Object_entries (categoryCounts rows)))"

subsection \<open>fetchAnalytics\<close>

text \<open>
  Each fetch is a step of the one \<open>try\<close> block: it throws (\<open>None\<close>) before any setter
  runs, or returns the state after its setter, which is skipped when \<open>data\<close> is null.
\<close>

definition fetchBlogStats :: "responses \<Rightarrow> dashboard \<Rightarrow> dashboard option" where
  "fetchBlogStats r s =
     (case blogs r of
        Throws \<Rightarrow> None
      | NoData \<Rightarrow> Some s
      | Data bs \<Rightarrow> Some (s\<lparr>blogStats := blogStatsOf bs\<rparr>))"

definition fetchCommentStats :: "responses \<Rightarrow> dashboard \<Rightarrow> dashboard option" where
  "fetchCommentStats r s =
     (case comments r of
        Throws \<Rightarrow> None
      | NoData \<Rightarrow> Some s
      | Data cs \<Rightarrow> Some (s\<lparr>commentStats := commentStatsOf cs\<rparr>))"

definition fetchEventStats :: "responses \<Rightarrow> dashboard \<Rightarrow> dashboard option" where
  "fetchEventStats r s =
     (case events r of
        Throws \<Rightarrow> None
      | NoData \<Rightarrow> Some s
      | Data es \<Rightarrow> Some (s\<lparr>eventStats := eventStatsOf es\<rparr>))"

definition fetchTopPosts :: "responses \<Rightarrow> dashboard \<Rightarrow> dashboard option" where
  "fetchTopPosts r s =
     (case posts r of
        Throws \<Rightarrow> None
      | NoData \<Rightarrow> Some s
      | Data ps \<Rightarrow>
          (case postsWithComments r ps of
             None \<Rightarrow> None
           | Some pcs \<Rightarrow> Some (s\<lparr>topPosts := pcs\<rparr>)))"

definition fetchCategoryPerformance :: "responses \<Rightarrow> dashboard \<Rightarrow> dashboard option" where
  "fetchCategoryPerformance r s =
     (case allPosts r of
        Throws \<Rightarrow> None
      | NoData \<Rightarrow> Some s
      | Data aps \<Rightarrow> Some (s\<lparr>categoryPerformance := categoryData aps\<rparr>))"

text \<open>The \<open>try\<close> block: the steps run in order until one throws; \<open>catch\<close> only logs.\<close>

fun try_block :: "('s \<Rightarrow> 's option) list \<Rightarrow> 's \<Rightarrow> 's" where
  "try_block [] s = s"
| "try_block (f # fs) s = (case f s of None \<Rightarrow> s | Some s' \<Rightarrow> try_block fs s')"

definition fetchAnalytics :: "responses \<Rightarrow> dashboard \<Rightarrow> dashboard" where
  "fetchAnalytics r s =
     (try_block
        [fetchBlogStats r, fetchCommentStats r, fetchEventStats r, fetchTopPosts r,
         fetchCategoryPerformance r] s)\<lparr>loading := False\<rparr>"

section \<open>Registrations view\<close>

definition filteredRSVPs :: "string \<Rightarrow> RSVP list \<Rightarrow> RSVP list" where
  "filteredRSVPs selectedEvent rsvps =
     (if selectedEvent = ''all'' then rsvps
      else filter (\<lambda>rsvp. event_id rsvp = selectedEvent) rsvps)"

section \<open>The percentage as the specification words it\<close>

text \<open>
  \<open>round(100 \<times> count / total)\<close> to the nearest integer, half up, on the exact quotient;
  for comparison with what \<open>categoryData\<close> computes in binary64.
\<close>

definition round_half_up_percentage :: "nat \<Rightarrow> nat \<Rightarrow> int" where
  "round_half_up_percentage c t = \<lfloor>(100 * of_nat c / of_nat t :: rat) + 1 / 2\<rfloor>"

section \<open>Example rows\<close>

definition examplePost :: "string \<Rightarrow> string \<Rightarrow> blog_post" where
  "examplePost st cat =
     \<lparr>status = st, post_id = ''post-'' @ cat, title = ''About '' @ cat, category = cat,
      created_at = 0\<rparr>"

definition exampleComment :: "string \<Rightarrow> string \<Rightarrow> comment" where
  "exampleComment st pid = \<lparr>status = st, comment_id = ''c'', blog_post_id = pid\<rparr>"

definition exampleRSVP :: "string \<Rightarrow> string \<Rightarrow> RSVP" where
  "exampleRSVP i ev =
     \<lparr>rsvp_id = i, rsvp_name = ''n'', email = ''e'', phone = ''p'', rsvp_created_at = ''t'',
      event_id = ev, events_title = ''Event''\<rparr>"

text \<open>
  A table with two published posts and a draft, and responses in which every fetch
  returns data: the lookup for the first post finds one approved comment, the lookup
  for the second returns no data, and the second lookup settles before the first.
\<close>

definition exampleTable :: "blog_post list" where
  "exampleTable =
     [examplePost ''published'' ''A'', examplePost ''draft'' ''C'',
      examplePost ''published'' ''B'']"

definition exampleResponses :: responses where
  "exampleResponses =
     \<lparr>blogs = Data exampleTable,
      comments = Data [exampleComment ''approved'' ''post-A''],
      events = Data [\<lparr>registered = 10\<rparr>, \<lparr>registered = 5\<rparr>, \<lparr>registered = 0\<rparr>],
      posts = Data [examplePost ''published'' ''A'', examplePost ''published'' ''B''],
      postComments =
        (\<lambda>i. if i = ''post-A'' then Data [exampleComment ''approved'' ''post-A''] else NoData),
      latency = (\<lambda>n. 2 - n),
      allPosts =
        Data [examplePost ''published'' ''A'', examplePost ''published'' ''A'',
              examplePost ''published'' ''B'']\<rparr>"

text \<open>The same responses, except that the events fetch raises.\<close>

definition eventFailure :: responses where
  "eventFailure = exampleResponses\<lparr>events := Throws\<rparr>"

text \<open>
  The same responses, except that the lookup for the first post returns no data and
  the lookup for the second post raises.
\<close>

definition lookupFailure :: responses where
  "lookupFailure =
     exampleResponses\<lparr>postComments := (\<lambda>i. if i = ''post-A'' then NoData else Throws)\<rparr>"

text \<open>The same responses, except that the events fetch reports its failure as no data.\<close>

definition eventNoData :: responses where
  "eventNoData = exampleResponses\<lparr>events := NoData\<rparr>"

section \<open>Status partition\<close>

lemma countStatus_Cons:
  "countStatus c (r # rows) = (if status r = c then 1 else 0) + countStatus c rows"
  by (simp add: countStatus_def)

lemma sum_list_indicator:
  "distinct cs \<Longrightarrow>
   sum_list (map (\<lambda>c. if x = c then 1 else 0) cs) = (if x \<in> set cs then (1::nat) else 0)"
  by (induction cs) auto

lemma sum_countStatus:
  "distinct cs \<Longrightarrow>
   sum_list (map (\<lambda>c. countStatus c rows) cs) = length (filter (\<lambda>r. status r \<in> set cs) rows)"
proof (induction rows)
  case Nil
  then show ?case by (simp add: countStatus_def)
next
  case (Cons r rows)
  have "sum_list (map (\<lambda>c. countStatus c (r # rows)) cs)
        = sum_list (map (\<lambda>c. if status r = c then 1 else 0) cs)
          + sum_list (map (\<lambda>c. countStatus c rows) cs)"
    by (simp add: countStatus_Cons sum_list_addf)
  with Cons show ?case by (simp add: sum_list_indicator)
qed

lemma length_filter_eq_iff: "(length (filter P xs) = length xs) = (\<forall>x\<in>set xs. P x)"
proof (induction xs)
  case Nil
  show ?case by simp
next
  case (Cons a xs)
  have "length (filter P xs) \<noteq> Suc (length xs)"
    using length_filter_le[of P xs] by arith
  with Cons show ?case by auto
qed

lemma countStatus_partition:
  "distinct ds \<Longrightarrow>
   sum_list (map (\<lambda>c. countStatus c xs) ds) \<le> length xs \<and>
   (sum_list (map (\<lambda>c. countStatus c xs) ds) = length xs
      \<longleftrightarrow> (\<forall>r\<in>set xs. status r \<in> set ds))"
  by (simp add: sum_countStatus length_filter_eq_iff)

text \<open>
  Claim C2. For rows \<open>rows\<close> and a list \<open>cs\<close> of distinct recognised status values, the
  per-category counts sum to at most the number of rows, with equality exactly when
  every row's status is one of \<open>cs\<close>; a row with another status counts toward the total
  only. The same holds of the two partitions the dashboard computes: published and
  draft posts, approved and pending comments.
\<close>

theorem partition_sum_le_total:
  assumes "distinct cs"
  shows "sum_list (map (\<lambda>c. countStatus c rows) cs) \<le> length rows \<and>
         (sum_list (map (\<lambda>c. countStatus c rows) cs) = length rows
            \<longleftrightarrow> (\<forall>r\<in>set rows. status r \<in> set cs)) \<and>
         published (blogStatsOf bs) + draft (blogStatsOf bs) \<le> total (blogStatsOf bs) \<and>
         (published (blogStatsOf bs) + draft (blogStatsOf bs) = total (blogStatsOf bs)
            \<longleftrightarrow> (\<forall>b\<in>set bs. status b \<in> {''published'', ''draft''})) \<and>
         approved (commentStatsOf ms) + pending (commentStatsOf ms) \<le> total (commentStatsOf ms) \<and>
         (approved (commentStatsOf ms) + pending (commentStatsOf ms) = total (commentStatsOf ms)
            \<longleftrightarrow> (\<forall>c\<in>set ms. status c \<in> {''approved'', ''pending''}))"
proof -
  have b: "distinct [''published'', ''draft'']" and c: "distinct [''approved'', ''pending'']"
    by simp_all
  show ?thesis
    using countStatus_partition[OF assms, of rows] countStatus_partition[OF b, of bs]
      countStatus_partition[OF c, of ms]
    by (simp add: blogStatsOf_def commentStatsOf_def)
qed

theorem partition_sum_le_total_witness:
  "distinct [''published'', ''draft''] \<and>
   set [examplePost ''published'' ''a'', examplePost ''archived'' ''b''] \<noteq> {} \<and>
   set [exampleComment ''approved'' ''p'', exampleComment ''pending'' ''p''] \<noteq> {} \<and>
   sum_list (map (\<lambda>c. countStatus c [examplePost ''published'' ''a'', examplePost ''archived'' ''b''])
               [''published'', ''draft''])
     < length [examplePost ''published'' ''a'', examplePost ''archived'' ''b''] \<and>
   published (blogStatsOf [examplePost ''published'' ''a'', examplePost ''archived'' ''b''])
     + draft (blogStatsOf [examplePost ''published'' ''a'', examplePost ''archived'' ''b''])
     < total (blogStatsOf [examplePost ''published'' ''a'', examplePost ''archived'' ''b'']) \<and>
   approved (commentStatsOf [exampleComment ''approved'' ''p'', exampleComment ''pending'' ''p''])
     + pending (commentStatsOf [exampleComment ''approved'' ''p'', exampleComment ''pending'' ''p''])
     = total (commentStatsOf [exampleComment ''approved'' ''p'', exampleComment ''pending'' ''p''])"
  using partition_sum_le_total
    [of "[''published'', ''draft'']"
        "[examplePost ''published'' ''a'', examplePost ''archived'' ''b'']"
        "[examplePost ''published'' ''a'', examplePost ''archived'' ''b'']"
        "[exampleComment ''approved'' ''p'', exampleComment ''pending'' ''p'']"]
  by (simp add: examplePost_def exampleComment_def)

text \<open>
  Claim C7. The blog statistics hold the number of rows as total and, for each of
  \<open>published\<close> and \<open>draft\<close>, the number of positions whose status is that very string:
  three published and two draft posts give 5, 3 and 2, and a status that differs in
  letter case is counted in neither bucket.
\<close>

theorem blogStatsOf_counts:
  "total (blogStatsOf bs) = length bs \<and>
   published (blogStatsOf bs) = card {i. i < length bs \<and> status (bs ! i) = ''published''} \<and>
   draft (blogStatsOf bs) = card {i. i < length bs \<and> status (bs ! i) = ''draft''} \<and>
   blogStatsOf [examplePost ''published'' ''a'', examplePost ''published'' ''b'',
                examplePost ''published'' ''c'', examplePost ''draft'' ''d'',
                examplePost ''draft'' ''e'']
     = \<lparr>total = 5, published = 3, draft = 2\<rparr> \<and>
   blogStatsOf [examplePost ''Published'' ''a'', examplePost ''DRAFT'' ''b'']
     = \<lparr>total = 2, published = 0, draft = 0\<rparr>"
  by (simp add: blogStatsOf_def countStatus_def length_filter_conv_card examplePost_def)

section \<open>Registrations filter\<close>

text \<open>
  Claim C9. With \<open>all\<close> selected the filtered list is the fetched list itself. With any
  other event id selected it is a subsequence of the fetched list (relative order
  kept) that holds exactly the registrations of that event, each as often as the
  fetched list does.
\<close>

theorem filteredRSVPs_spec:
  "filteredRSVPs ''all'' rsvps = rsvps \<and>
   (sel \<noteq> ''all'' \<longrightarrow>
      subseq (filteredRSVPs sel rsvps) rsvps \<and>
      (\<forall>r. r \<in> set (filteredRSVPs sel rsvps) \<longleftrightarrow> r \<in> set rsvps \<and> event_id r = sel) \<and>
      (\<forall>r. count_list (filteredRSVPs sel rsvps) r
             = (if event_id r = sel then count_list rsvps r else 0)))"
proof -
  have "count_list (filter P xs) r = (if P r then count_list xs r else 0)"
    for P xs and r :: RSVP
    by (induction xs) auto
  then show ?thesis by (auto simp: filteredRSVPs_def)
qed

theorem filteredRSVPs_spec_witness:
  "''e1'' \<noteq> ''all'' \<and>
   filteredRSVPs ''all''
       [exampleRSVP ''1'' ''e1'', exampleRSVP ''2'' ''e2'', exampleRSVP ''3'' ''e1'']
     = [exampleRSVP ''1'' ''e1'', exampleRSVP ''2'' ''e2'', exampleRSVP ''3'' ''e1''] \<and>
   subseq
     (filteredRSVPs ''e1''
        [exampleRSVP ''1'' ''e1'', exampleRSVP ''2'' ''e2'', exampleRSVP ''3'' ''e1''])
     [exampleRSVP ''1'' ''e1'', exampleRSVP ''2'' ''e2'', exampleRSVP ''3'' ''e1''] \<and>
   filteredRSVPs ''e1''
       [exampleRSVP ''1'' ''e1'', exampleRSVP ''2'' ''e2'', exampleRSVP ''3'' ''e1'']
     = [exampleRSVP ''1'' ''e1'', exampleRSVP ''3'' ''e1'']"
  using filteredRSVPs_spec
    [of "[exampleRSVP ''1'' ''e1'', exampleRSVP ''2'' ''e2'', exampleRSVP ''3'' ''e1'']" "''e1''"]
  by (simp add: filteredRSVPs_def exampleRSVP_def)

section \<open>Category performance\<close>

lemma categoryCounts_Nil: "categoryCounts [] = []"
  by (simp add: categoryCounts_def)

lemma Object_entries_Nil: "Object_entries [] = []"
  by (simp add: Object_entries_def)

text \<open>
  Claim C4. For an empty set of published posts the category data is the empty
  sequence. No input at all reaches a division by zero: no entry has percentage
  \<open>Infinity\<close>, and an entry whose count is a number never has percentage \<open>NaN\<close>.
\<close>

theorem categoryData_empty:
  "categoryData [] = [] \<and>
   (\<forall>e \<in> set (categoryData rows).
      percentage e \<noteq> Infinity \<and> (\<forall>c. views e = Num c \<longrightarrow> percentage e \<noteq> NaN))"
proof -
  have "percentage e \<noteq> Infinity \<and> (\<forall>c. views e = Num c \<longrightarrow> percentage e \<noteq> NaN)"
    if "e \<in> set (categoryData rows)" for e
  proof -
    from that have "rows \<noteq> []"
      by (auto simp: categoryData_def categoryCounts_Nil Object_entries_Nil)
    with that show ?thesis
      by (cases "views e") (auto simp: categoryData_def js_div_def Let_def split: jsvalue.splits)
  qed
  then show ?thesis
    by (simp add: categoryData_def categoryCounts_Nil Object_entries_Nil)
qed

theorem categoryData_empty_witness:
  "\<lparr>name = ''A'', views = Num 1, percentage = Fin 100\<rparr>
     \<in> set (categoryData [examplePost ''published'' ''A'']) \<and>
   percentage \<lparr>name = ''A'', views = Num 1, percentage = Fin 100\<rparr> \<noteq> Infinity \<and>
   percentage \<lparr>name = ''A'', views = Num 1, percentage = Fin 100\<rparr> \<noteq> NaN \<and>
   categoryData [] = []"
proof -
  have "categoryData [examplePost ''published'' ''A'']
        = [\<lparr>name = ''A'', views = Num 1, percentage = Fin 100\<rparr>]"
    by code_simp
  then show ?thesis
    using categoryData_empty [of "[examplePost ''published'' ''A'']"] by simp
qed

section \<open>Registration sum\<close>

lemma round_half_even_dvd: "0 < d \<Longrightarrow> d dvd n \<Longrightarrow> round_half_even n d = n div d"
  by (auto simp: round_half_even_def Let_def)

lemma bitlen_pos_bounds:
  assumes "0 < n"
  shows "2 ^ nat (bitlen n) \<le> 2 * n" and "n < 2 ^ nat (bitlen n)" and "0 < bitlen n"
proof -
  from bitlen_bounds[OF assms] have lo: "2 ^ nat (bitlen n - 1) \<le> n" and hi: "n < 2 ^ nat (bitlen n)"
    by simp_all
  show "n < 2 ^ nat (bitlen n)" by (rule hi)
  show pos: "0 < bitlen n"
    using assms bitlen_nonneg[of n] bitlen_eq_zero_iff[of n] by arith
  then have "nat (bitlen n) = Suc (nat (bitlen n - 1))" by simp
  then have "(2::int) ^ nat (bitlen n) = 2 * 2 ^ nat (bitlen n - 1)" by simp
  with lo show "2 ^ nat (bitlen n) \<le> 2 * n" by simp
qed

lemma bitlen_1: "bitlen 1 = 1"
  by (simp add: compute_bitlen[of 1])

lemma binary64_quot_int:
  assumes "0 \<le> n" "n \<le> 2 ^ 53"
  shows "binary64_quot n 1 = of_int n"
proof (cases "n = 0")
  case True
  then show ?thesis by (simp add: binary64_quot_def)
next
  case False
  with assms have pos: "0 < n" by simp
  define bn where "bn = nat (bitlen n)"
  have b1: "2 ^ bn \<le> 2 * n" and b2: "n < 2 ^ bn"
    using bitlen_pos_bounds[OF pos] by (simp_all add: bn_def)
  have one: "nat (bitlen 1) = 1" by (simp add: bitlen_1)
  have dv: "(2::int) ^ bn dvd n * 2 ^ 53"
  proof (cases "bn \<le> 53")
    case True
    then have "(2::int) ^ bn dvd 2 ^ 53" by (rule le_imp_power_dvd)
    then show ?thesis by simp
  next
    case False
    then have "54 \<le> bn" by simp
    then have "(2::int) ^ 54 \<le> 2 ^ bn" by (intro power_increasing) simp_all
    moreover have "(2::int) ^ 54 = 2 * 2 ^ 53" by simp
    ultimately have n: "n = 2 ^ 53" using b1 assms by linarith
    have "bn \<le> 54"
    proof (rule ccontr)
      assume "\<not> bn \<le> 54"
      then have "55 \<le> bn" by simp
      then have "(2::int) ^ 55 \<le> 2 ^ bn" by (intro power_increasing) simp_all
      moreover have "(2::int) ^ 55 = 4 * 2 ^ 53" by simp
      moreover have "(0::int) < 2 ^ 53" by simp
      ultimately show False using b1 assms by linarith
    qed
    with \<open>54 \<le> bn\<close> have "bn = 54" by simp
    with n have "n * 2 ^ 53 = 2 ^ bn * 2 ^ 52" by simp
    then show ?thesis by (simp only: dvd_triv_left)
  qed
  have k: "\<not> n * 2 ^ 1 < 1 * 2 ^ bn" using b1 by simp
  have m: "round_half_even (n * 2 ^ 53) (1 * 2 ^ bn) * 2 ^ bn = n * 2 ^ 53"
    using dv by (simp add: round_half_even_dvd)
  have "binary64_quot n 1 = of_int (round_half_even (n * 2 ^ 53) (1 * 2 ^ bn) * 2 ^ bn) / of_int (2 ^ 53)"
    using False k unfolding binary64_quot_def Let_def one bn_def[symmetric] by simp
  also have "\<dots> = of_int n" by (simp only: m) simp
  finally show ?thesis .
qed
lemma binary64_of_int:
  "0 \<le> n \<Longrightarrow> n \<le> 2 ^ 53 \<Longrightarrow> binary64 (of_int n) = of_int n"
  by (simp add: binary64_def binary64_quot_int)

lemma foldl_registered:
  assumes "\<forall>e\<in>set es. 0 \<le> registered e"
      and "0 \<le> a" and "a + sum_list (map registered es) \<le> 2 ^ 53"
  shows "foldl (\<lambda>sum e. js_add sum (Fin (of_int (registered e)))) (Fin (of_int a)) es
         = Fin (of_int (a + sum_list (map registered es)))"
  using assms
proof (induction es arbitrary: a)
  case Nil
  then show ?case by simp
next
  case (Cons e es)
  have nn: "0 \<le> sum_list (map registered es)"
    using Cons.prems(1) by (intro sum_list_nonneg) auto
  have e0: "0 \<le> registered e" using Cons.prems(1) by simp
  have le: "a + registered e \<le> 2 ^ 53" using Cons.prems(3) nn by simp
  have step: "js_add (Fin (of_int a)) (Fin (of_int (registered e))) = Fin (of_int (a + registered e))"
    using binary64_of_int[of "a + registered e"] le e0 Cons.prems(2) by simp
  have ih: "foldl (\<lambda>sum e. js_add sum (Fin (of_int (registered e)))) (Fin (of_int (a + registered e))) es
        = Fin (of_int ((a + registered e) + sum_list (map registered es)))"
    using Cons.prems e0 by (intro Cons.IH) (simp_all add: add.assoc)
  have "foldl (\<lambda>sum e. js_add sum (Fin (of_int (registered e)))) (Fin (of_int a)) (e # es)
        = foldl (\<lambda>sum e. js_add sum (Fin (of_int (registered e))))
            (js_add (Fin (of_int a)) (Fin (of_int (registered e)))) es"
    by (simp only: foldl_Cons)
  also have "\<dots> = Fin (of_int ((a + registered e) + sum_list (map registered es)))"
    by (simp only: step ih)
  also have "(a + registered e) + sum_list (map registered es) = a + sum_list (map registered (e # es))"
    by simp
  finally show ?case .
qed

text \<open>
  Claim C6. The registration total of no events is 0, and for events with non-negative
  registered counts whose sum is a safe integer (at most \<open>2\<^sup>5\<^sup>3\<close>, the scale the spec
  sets aside) the reduce returns exactly their arithmetic sum: no addition rounds.
  The events registered 10, 5 and 0 sum to 15.
\<close>

theorem sumField_registered:
  assumes "\<forall>e\<in>set es. 0 \<le> registered e"
      and "sum_list (map registered es) \<le> 2 ^ 53"
  shows "totalRegistrations (eventStatsOf []) = Fin 0 \<and>
         totalRegistrations (eventStatsOf es) = Fin (of_int (sum_list (map registered es))) \<and>
         total (eventStatsOf es) = length es"
  using foldl_registered[of es 0] assms by (simp add: eventStatsOf_def)

theorem sumField_registered_witness:
  "0 \<le> registered \<lparr>registered = 10\<rparr> \<and> 0 \<le> registered \<lparr>registered = 5\<rparr> \<and>
   0 \<le> registered \<lparr>registered = 0\<rparr> \<and>
   sum_list (map registered [\<lparr>registered = 10\<rparr>, \<lparr>registered = 5\<rparr>, \<lparr>registered = 0\<rparr>]) \<le> 2 ^ 53 \<and>
   totalRegistrations (eventStatsOf [\<lparr>registered = 10\<rparr>, \<lparr>registered = 5\<rparr>, \<lparr>registered = 0\<rparr>]) = Fin 15"
  using sumField_registered [of "[\<lparr>registered = 10\<rparr>, \<lparr>registered = 5\<rparr>, \<lparr>registered = 0\<rparr>]"]
  by simp

section \<open>Top posts\<close>

lemma those_map_Some: "those (map Some xs) = Some xs"
  by (induction xs) simp_all

lemma Promise_all_fulfilled:
  assumes "length vs = length ps" and "\<forall>i<length ps. ps ! i = Fulfilled (vs ! i)"
  shows "length slots = length ps \<Longrightarrow>
         Promise_all order ps slots
         = those (map (\<lambda>j. if j \<in> set order then Some (vs ! j) else slots ! j) [0..<length ps])"
proof (induction order arbitrary: slots)
  case Nil
  have "map (\<lambda>j. slots ! j) [0..<length slots] = slots" by (rule map_nth)
  with Nil show ?case by simp
next
  case (Cons i order)
  show ?case
  proof (cases "i < length ps")
    case True
    have "Promise_all (i # order) ps slots = Promise_all order ps (slots[i := Some (vs ! i)])"
      using True assms(2) by simp
    also have "\<dots> = those (map (\<lambda>j. if j \<in> set order then Some (vs ! j)
                                      else slots[i := Some (vs ! i)] ! j) [0..<length ps])"
      using Cons.prems by (intro Cons.IH) simp
    also have "map (\<lambda>j. if j \<in> set order then Some (vs ! j)
                         else slots[i := Some (vs ! i)] ! j) [0..<length ps]
               = map (\<lambda>j. if j \<in> set (i # order) then Some (vs ! j) else slots ! j) [0..<length ps]"
      using Cons.prems by (intro map_cong) (auto simp: nth_list_update)
    finally show ?thesis .
  next
    case False
    have "Promise_all (i # order) ps slots = Promise_all order ps slots"
      using False by simp
    also have "\<dots> = those (map (\<lambda>j. if j \<in> set order then Some (vs ! j) else slots ! j)
                               [0..<length ps])"
      using Cons.prems by (intro Cons.IH)
    also have "map (\<lambda>j. if j \<in> set order then Some (vs ! j) else slots ! j) [0..<length ps]
               = map (\<lambda>j. if j \<in> set (i # order) then Some (vs ! j) else slots ! j) [0..<length ps]"
      using False by (intro map_cong) auto
    finally show ?thesis .
  qed
qed

lemma Promise_all_complete:
  assumes "length vs = length ps" and "\<forall>i<length ps. ps ! i = Fulfilled (vs ! i)"
      and "{0..<length ps} \<subseteq> set order"
  shows "Promise_all order ps (replicate (length ps) None) = Some vs"
proof -
  have "map (\<lambda>j. if j \<in> set order then Some (vs ! j) else replicate (length ps) None ! j)
          [0..<length ps] = map (\<lambda>j. Some (vs ! j)) [0..<length ps]"
    using assms(3) by (intro map_cong) auto
  also have "\<dots> = map Some (map (\<lambda>j. vs ! j) [0..<length vs])"
    by (simp add: assms(1))
  also have "\<dots> = map Some vs" by (simp only: map_nth)
  finally show ?thesis
    using Promise_all_fulfilled[OF assms(1,2), of "replicate (length ps) None" order]
    by (simp add: those_map_Some)
qed

lemma set_completion_order: "set (completion_order lat n) = {0..<n}"
  by (simp add: completion_order_def)

lemma postsWithComments_Some:
  assumes "\<forall>p\<in>set ps. postComments r (post_id p) \<noteq> Throws"
  shows "postsWithComments r ps
         = Some (map (\<lambda>p. \<lparr>tp_title = title p,
                            tp_comments = (case postComments r (post_id p) of
                                             Data cs \<Rightarrow> length cs | NoData \<Rightarrow> 0 | Throws \<Rightarrow> 0)\<rparr>) ps)"
proof -
  have "\<forall>i<length (map (commentCount r) ps).
          map (commentCount r) ps ! i
          = Fulfilled (map (\<lambda>p. \<lparr>tp_title = title p,
                            tp_comments = (case postComments r (post_id p) of
                                             Data cs \<Rightarrow> length cs | NoData \<Rightarrow> 0 | Throws \<Rightarrow> 0)\<rparr>) ps ! i)"
    using assms by (auto simp: commentCount_def split: response.splits)
  then show ?thesis
    unfolding postsWithComments_def
    using Promise_all_complete[of _ "map (commentCount r) ps" "completion_order (latency r) (length ps)"]
    by (simp add: set_completion_order)
qed

lemma length_topPostsQuery:
  "length (topPostsQuery table) = min 5 (countStatus ''published'' table)"
  by (simp add: topPostsQuery_def countStatus_def min.commute)

lemma fetchTopPosts_Some:
  assumes "posts r = Data ps" and "\<forall>p\<in>set ps. postComments r (post_id p) \<noteq> Throws"
  shows "fetchTopPosts r s
         = Some (s\<lparr>topPosts := map (\<lambda>p. \<lparr>tp_title = title p,
                            tp_comments = (case postComments r (post_id p) of
                                             Data cs \<Rightarrow> length cs | NoData \<Rightarrow> 0 | Throws \<Rightarrow> 0)\<rparr>) ps\<rparr>)"
  using assms by (simp add: fetchTopPosts_def postsWithComments_Some)

text \<open>
  Claim C3. When the posts fetch returns \<open>ps\<close> and no comment lookup raises, the top
  posts are one (title, approved-comment count) entry per post of \<open>ps\<close>, in the order
  of \<open>ps\<close>, whatever the order in which the lookups settle (any other \<open>latency\<close>
  gives the same result). When \<open>ps\<close> is the answer to the query for the five most
  recent published posts of a table, the number of entries is the minimum of 5 and
  the number of published posts.
\<close>

theorem topPosts_length_and_order:
  assumes "posts r = Data ps" and "\<forall>p\<in>set ps. postComments r (post_id p) \<noteq> Throws"
  shows "fetchTopPosts r s
         = Some (s\<lparr>topPosts := map (\<lambda>p. \<lparr>tp_title = title p,
                            tp_comments = (case postComments r (post_id p) of
                                             Data cs \<Rightarrow> length cs | NoData \<Rightarrow> 0 | Throws \<Rightarrow> 0)\<rparr>) ps\<rparr>) \<and>
         fetchTopPosts (r\<lparr>latency := lat\<rparr>) s = fetchTopPosts r s \<and>
         (ps = topPostsQuery table \<longrightarrow>
            (\<exists>tps. fetchTopPosts r s = Some (s\<lparr>topPosts := tps\<rparr>) \<and>
                   length tps = min 5 (countStatus ''published'' table) \<and>
                   map tp_title tps = map title (topPostsQuery table)))"
proof -
  have a: "posts (r\<lparr>latency := lat\<rparr>) = Data ps"
    and b: "\<forall>p\<in>set ps. postComments (r\<lparr>latency := lat\<rparr>) (post_id p) \<noteq> Throws"
    using assms by simp_all
  show ?thesis
    using fetchTopPosts_Some[OF assms, of s] fetchTopPosts_Some[OF a b, of s]
    by (auto simp: length_topPostsQuery comp_def)
qed

theorem topPosts_length_and_order_witness:
  "posts exampleResponses = Data [examplePost ''published'' ''A'', examplePost ''published'' ''B''] \<and>
   postComments exampleResponses (post_id (examplePost ''published'' ''A'')) \<noteq> Throws \<and>
   postComments exampleResponses (post_id (examplePost ''published'' ''B'')) \<noteq> Throws \<and>
   [examplePost ''published'' ''A'', examplePost ''published'' ''B''] = topPostsQuery exampleTable \<and>
   completion_order (latency exampleResponses) 2 = [1, 0] \<and>
   fetchTopPosts exampleResponses initialState
     = Some (initialState\<lparr>topPosts := [\<lparr>tp_title = ''About A'', tp_comments = 1\<rparr>,
                                       \<lparr>tp_title = ''About B'', tp_comments = 0\<rparr>]\<rparr>) \<and>
   min 5 (countStatus ''published'' exampleTable) = 2"
proof -
  let ?ps = "[examplePost ''published'' ''A'', examplePost ''published'' ''B'']"
  have h1: "posts exampleResponses = Data ?ps"
    by (simp add: exampleResponses_def)
  have h2: "\<forall>p\<in>set ?ps. postComments exampleResponses (post_id p) \<noteq> Throws"
    by (simp add: exampleResponses_def examplePost_def)
  have q: "?ps = topPostsQuery exampleTable"
    by (simp add: topPostsQuery_def exampleTable_def examplePost_def)
  have o: "completion_order (latency exampleResponses) 2 = [1, 0]"
    by (simp add: completion_order_def exampleResponses_def numeral_2_eq_2)
  have m: "min 5 (countStatus ''published'' exampleTable) = 2"
    by (simp add: exampleTable_def examplePost_def countStatus_def)
  from topPosts_length_and_order [OF h1 h2, of initialState "\<lambda>n. n" exampleTable]
  have "fetchTopPosts exampleResponses initialState
        = Some (initialState\<lparr>topPosts := map (\<lambda>p. \<lparr>tp_title = title p,
                   tp_comments = (case postComments exampleResponses (post_id p) of
                                    Data cs \<Rightarrow> length cs | NoData \<Rightarrow> 0 | Throws \<Rightarrow> 0)\<rparr>) ?ps\<rparr>)"
    by (rule conjunct1)
  also have "map (\<lambda>p. \<lparr>tp_title = title p,
                   tp_comments = (case postComments exampleResponses (post_id p) of
                                    Data cs \<Rightarrow> length cs | NoData \<Rightarrow> 0 | Throws \<Rightarrow> 0)\<rparr>) ?ps
             = [\<lparr>tp_title = ''About A'', tp_comments = 1\<rparr>, \<lparr>tp_title = ''About B'', tp_comments = 0\<rparr>]"
    by (simp add: exampleResponses_def examplePost_def)
  finally have r: "fetchTopPosts exampleResponses initialState
     = Some (initialState\<lparr>topPosts := [\<lparr>tp_title = ''About A'', tp_comments = 1\<rparr>,
                                       \<lparr>tp_title = ''About B'', tp_comments = 0\<rparr>]\<rparr>)" .
  have h2': "postComments exampleResponses (post_id (examplePost ''published'' ''A'')) \<noteq> Throws \<and>
   postComments exampleResponses (post_id (examplePost ''published'' ''B'')) \<noteq> Throws"
    using h2 by simp
  show ?thesis
    by (intro conjI h1 q o r m conjunct1[OF h2'] conjunct2[OF h2'])
qed

lemma Promise_all_rejected:
  "i \<in> set order \<Longrightarrow> i < length ps \<Longrightarrow> ps ! i = Rejected \<Longrightarrow>
   Promise_all order ps slots = None"
proof (induction order arbitrary: slots)
  case Nil
  then show ?case by simp
next
  case (Cons j order)
  show ?case
  proof (cases "j = i")
    case True
    with Cons.prems show ?thesis by simp
  next
    case False
    with Cons.prems have "i \<in> set order" by simp
    then have "Promise_all order ps slots' = None" for slots'
      using Cons.prems(2,3) by (rule Cons.IH)
    then show ?thesis by (simp split: settled.splits)
  qed
qed

lemma postsWithComments_None:
  assumes "p \<in> set ps" and "postComments r (post_id p) = Throws"
  shows "postsWithComments r ps = None"
proof -
  from assms(1) obtain i where i: "i < length ps" and p: "ps ! i = p"
    by (auto simp: in_set_conv_nth)
  have "map (commentCount r) ps ! i = Rejected"
    using i p assms(2) by (simp add: commentCount_def)
  moreover have "i \<in> set (completion_order (latency r) (length ps))"
    using i by (simp add: set_completion_order)
  ultimately show ?thesis
    unfolding postsWithComments_def using i by (intro Promise_all_rejected[of i]) simp_all
qed

lemma topPosts_kept:
  assumes "posts r = Data ps" and "postsWithComments r ps = None"
  shows "fetchTopPosts r s = None" and "topPosts (fetchAnalytics r s) = topPosts s"
proof -
  show f: "fetchTopPosts r s' = None" for s'
    using assms by (simp add: fetchTopPosts_def)
  show "topPosts (fetchAnalytics r s) = topPosts s"
    by (simp add: fetchAnalytics_def fetchBlogStats_def fetchCommentStats_def
          fetchEventStats_def f split: response.splits)
qed

text \<open>
  Claim C10, amended. When no lookup raises, the top posts have one entry per fetched
  post, and the entry of every post whose lookup returned no data is that post's title
  with a comment count of 0. When a lookup raises, \<open>Promise.all\<close> rejects: the top posts
  are not set and keep their previous value (empty after mount), so no post is in the
  output.
\<close>

theorem failed_lookup_outcome:
  assumes "posts r = Data ps"
  shows "((\<forall>p\<in>set ps. postComments r (post_id p) \<noteq> Throws) \<longrightarrow>
            (\<exists>tps. fetchTopPosts r s = Some (s\<lparr>topPosts := tps\<rparr>) \<and>
                   topPosts (the (fetchTopPosts r s)) = tps \<and> length tps = length ps \<and>
                   (\<forall>i<length ps. postComments r (post_id (ps ! i)) = NoData \<longrightarrow>
                      tps ! i = \<lparr>tp_title = title (ps ! i), tp_comments = 0\<rparr>))) \<and>
         ((\<exists>p\<in>set ps. postComments r (post_id p) = Throws) \<longrightarrow>
            fetchTopPosts r s = None \<and> topPosts (fetchAnalytics r s) = topPosts s)"
proof (intro conjI impI)
  assume ok: "\<forall>p\<in>set ps. postComments r (post_id p) \<noteq> Throws"
  let ?tps = "map (\<lambda>p. \<lparr>tp_title = title p,
                         tp_comments = (case postComments r (post_id p) of
                                          Data cs \<Rightarrow> length cs | NoData \<Rightarrow> 0 | Throws \<Rightarrow> 0)\<rparr>) ps"
  have f: "fetchTopPosts r s = Some (s\<lparr>topPosts := ?tps\<rparr>)"
    by (rule fetchTopPosts_Some[OF assms ok])
  moreover have "topPosts (the (fetchTopPosts r s)) = ?tps" by (simp add: f)
  moreover have "length ?tps = length ps" by simp
  moreover have "\<forall>i<length ps. postComments r (post_id (ps ! i)) = NoData \<longrightarrow>
                   ?tps ! i = \<lparr>tp_title = title (ps ! i), tp_comments = 0\<rparr>"
    by simp
  ultimately show "\<exists>tps. fetchTopPosts r s = Some (s\<lparr>topPosts := tps\<rparr>) \<and>
                   topPosts (the (fetchTopPosts r s)) = tps \<and> length tps = length ps \<and>
                   (\<forall>i<length ps. postComments r (post_id (ps ! i)) = NoData \<longrightarrow>
                      tps ! i = \<lparr>tp_title = title (ps ! i), tp_comments = 0\<rparr>)"
    by blast
next
  assume "\<exists>p\<in>set ps. postComments r (post_id p) = Throws"
  then obtain p where "p \<in> set ps" "postComments r (post_id p) = Throws" by blast
  then have n: "postsWithComments r ps = None" by (rule postsWithComments_None)
  show "fetchTopPosts r s = None" by (rule topPosts_kept(1)[OF assms n])
  show "topPosts (fetchAnalytics r s) = topPosts s" by (rule topPosts_kept(2)[OF assms n])
qed

theorem failed_lookup_outcome_witness:
  "posts exampleResponses = Data [examplePost ''published'' ''A'', examplePost ''published'' ''B''] \<and>
   postComments exampleResponses (post_id (examplePost ''published'' ''A'')) \<noteq> Throws \<and>
   postComments exampleResponses (post_id (examplePost ''published'' ''B'')) = NoData \<and>
   topPosts (the (fetchTopPosts exampleResponses initialState)) ! 1
     = \<lparr>tp_title = ''About B'', tp_comments = 0\<rparr> \<and>
   length (topPosts (the (fetchTopPosts exampleResponses initialState))) = 2 \<and>
   posts lookupFailure = Data [examplePost ''published'' ''A'', examplePost ''published'' ''B''] \<and>
   postComments lookupFailure (post_id (examplePost ''published'' ''B'')) = Throws \<and>
   fetchTopPosts lookupFailure initialState = None \<and>
   topPosts (fetchAnalytics lookupFailure initialState) = topPosts initialState"
proof -
  let ?ps = "[examplePost ''published'' ''A'', examplePost ''published'' ''B'']"
  have h1: "posts exampleResponses = Data ?ps"
    by (simp add: exampleResponses_def)
  have h2: "\<forall>p\<in>set ?ps. postComments exampleResponses (post_id p) \<noteq> Throws"
    by (simp add: exampleResponses_def examplePost_def)
  have h2': "postComments exampleResponses (post_id (examplePost ''published'' ''A'')) \<noteq> Throws"
    using h2 by simp
  have h3: "postComments exampleResponses (post_id (examplePost ''published'' ''B'')) = NoData"
    by (simp add: exampleResponses_def examplePost_def)
  from failed_lookup_outcome [OF h1, of initialState] h2
  obtain tps where t: "topPosts (the (fetchTopPosts exampleResponses initialState)) = tps"
      "length tps = length ?ps"
      "\<forall>i<length ?ps. postComments exampleResponses (post_id (?ps ! i)) = NoData \<longrightarrow>
          tps ! i = \<lparr>tp_title = title (?ps ! i), tp_comments = 0\<rparr>"
    by blast
  have a: "topPosts (the (fetchTopPosts exampleResponses initialState)) ! 1
           = \<lparr>tp_title = ''About B'', tp_comments = 0\<rparr>"
    using t(3) h3 unfolding t(1) by (simp add: examplePost_def)
  have b: "length (topPosts (the (fetchTopPosts exampleResponses initialState))) = 2"
    using t(2) unfolding t(1) by simp
  have g1: "posts lookupFailure = Data ?ps"
    by (simp add: lookupFailure_def exampleResponses_def)
  have g2: "postComments lookupFailure (post_id (examplePost ''published'' ''B'')) = Throws"
    by (simp add: lookupFailure_def examplePost_def)
  then have g3: "\<exists>p\<in>set ?ps. postComments lookupFailure (post_id p) = Throws" by simp
  from failed_lookup_outcome [OF g1, of initialState] g3
  have c: "fetchTopPosts lookupFailure initialState = None"
    and d: "topPosts (fetchAnalytics lookupFailure initialState) = topPosts initialState"
    by blast+
  show ?thesis by (intro conjI h1 h2' h3 a b g1 g2 c d)
qed

text \<open>
  Claim C10 as stated fails when another lookup raises: the lookup for the first post
  returns no data, the lookup for the second raises, and the first post is not in the
  output, which stays empty.
\<close>

theorem raising_lookup_counterexample:
  "posts lookupFailure = Data [examplePost ''published'' ''A'', examplePost ''published'' ''B''] \<and>
   postComments lookupFailure (post_id (examplePost ''published'' ''A'')) = NoData \<and>
   postComments lookupFailure (post_id (examplePost ''published'' ''B'')) = Throws \<and>
   fetchTopPosts lookupFailure initialState = None \<and>
   topPosts (fetchAnalytics lookupFailure initialState) = []"
proof -
  let ?ps = "[examplePost ''published'' ''A'', examplePost ''published'' ''B'']"
  have g1: "posts lookupFailure = Data ?ps"
    by (simp add: lookupFailure_def exampleResponses_def)
  have g0: "postComments lookupFailure (post_id (examplePost ''published'' ''A'')) = NoData"
    by (simp add: lookupFailure_def examplePost_def)
  have g2: "postComments lookupFailure (post_id (examplePost ''published'' ''B'')) = Throws"
    by (simp add: lookupFailure_def examplePost_def)
  have n: "postsWithComments lookupFailure ?ps = None"
    by (rule postsWithComments_None[OF _ g2]) simp
  have c: "fetchTopPosts lookupFailure initialState = None"
    by (rule topPosts_kept(1)[OF g1 n])
  have "topPosts (fetchAnalytics lookupFailure initialState) = topPosts initialState"
    by (rule topPosts_kept(2)[OF g1 n])
  then have d: "topPosts (fetchAnalytics lookupFailure initialState) = []"
    by (simp add: initialState_def)
  show ?thesis by (intro conjI g1 g0 g2 c d)
qed

section \<open>The fetch sequence\<close>

text \<open>
  Claim C1, amended. All five fetches run in one \<open>try\<close> block. A fetch that returns no
  data leaves its own statistic at its previous value (zero after mount) and the other
  statistics are computed as usual. A fetch that raises ends the block: the statistics
  fetched before it are set, its own and every later statistic keep their previous
  values, and in every case \<open>loading\<close> ends false and nothing propagates.
\<close>

theorem fetchAnalytics_single_try:
  "loading (fetchAnalytics r s) = False \<and>
   blogStats (fetchAnalytics r s)
     = (case blogs r of Data bs \<Rightarrow> blogStatsOf bs | NoData \<Rightarrow> blogStats s | Throws \<Rightarrow> blogStats s) \<and>
   commentStats (fetchAnalytics r s)
     = (if blogs r = Throws then commentStats s
        else case comments r of
               Data cs \<Rightarrow> commentStatsOf cs | NoData \<Rightarrow> commentStats s | Throws \<Rightarrow> commentStats s) \<and>
   eventStats (fetchAnalytics r s)
     = (if blogs r = Throws \<or> comments r = Throws then eventStats s
        else case events r of
               Data es \<Rightarrow> eventStatsOf es | NoData \<Rightarrow> eventStats s | Throws \<Rightarrow> eventStats s) \<and>
   topPosts (fetchAnalytics r s)
     = (if blogs r = Throws \<or> comments r = Throws \<or> events r = Throws then topPosts s
        else case posts r of
               Data ps \<Rightarrow> (case postsWithComments r ps of Some tps \<Rightarrow> tps | None \<Rightarrow> topPosts s)
             | NoData \<Rightarrow> topPosts s | Throws \<Rightarrow> topPosts s) \<and>
   categoryPerformance (fetchAnalytics r s)
     = (if blogs r = Throws \<or> comments r = Throws \<or> events r = Throws \<or> posts r = Throws \<or>
           (\<exists>ps. posts r = Data ps \<and> postsWithComments r ps = None)
        then categoryPerformance s
        else case allPosts r of
               Data aps \<Rightarrow> categoryData aps | NoData \<Rightarrow> categoryPerformance s
             | Throws \<Rightarrow> categoryPerformance s)"
  by (simp add: fetchAnalytics_def fetchBlogStats_def fetchCommentStats_def fetchEventStats_def
        fetchTopPosts_def fetchCategoryPerformance_def split: response.splits option.splits)

theorem fetchAnalytics_single_try_witness:
  "events eventNoData = NoData \<and>
   fetchAnalytics eventNoData initialState
     = \<lparr>blogStats = \<lparr>total = 3, published = 2, draft = 1\<rparr>,
        commentStats = \<lparr>total = 1, approved = 1, pending = 0\<rparr>,
        eventStats = \<lparr>total = 0, totalRegistrations = Fin 0\<rparr>,
        topPosts = [\<lparr>tp_title = ''About A'', tp_comments = 1\<rparr>,
                    \<lparr>tp_title = ''About B'', tp_comments = 0\<rparr>],
        categoryPerformance = [\<lparr>name = ''A'', views = Num 2, percentage = Fin 67\<rparr>,
                               \<lparr>name = ''B'', views = Num 1, percentage = Fin 33\<rparr>],
        loading = False\<rparr>"
proof -
  have c: "categoryData [examplePost ''published'' ''A'', examplePost ''published'' ''A'',
                 examplePost ''published'' ''B'']
     = [\<lparr>name = ''A'', views = Num 2, percentage = Fin 67\<rparr>,
        \<lparr>name = ''B'', views = Num 1, percentage = Fin 33\<rparr>]"
    by code_simp
  have p: "postsWithComments eventNoData [examplePost ''published'' ''A'', examplePost ''published'' ''B'']
     = Some [\<lparr>tp_title = ''About A'', tp_comments = 1\<rparr>, \<lparr>tp_title = ''About B'', tp_comments = 0\<rparr>]"
    by (simp add: postsWithComments_Some eventNoData_def exampleResponses_def examplePost_def)
  have r: "blogs eventNoData = Data exampleTable"
      "comments eventNoData = Data [exampleComment ''approved'' ''post-A'']"
      "events eventNoData = NoData"
      "posts eventNoData = Data [examplePost ''published'' ''A'', examplePost ''published'' ''B'']"
      "allPosts eventNoData = Data [examplePost ''published'' ''A'', examplePost ''published'' ''A'',
                 examplePost ''published'' ''B'']"
    by (simp_all add: eventNoData_def exampleResponses_def)
  have b: "blogStatsOf exampleTable = \<lparr>total = 3, published = 2, draft = 1\<rparr>"
    by (simp add: blogStatsOf_def countStatus_def exampleTable_def examplePost_def)
  have m: "commentStatsOf [exampleComment ''approved'' ''post-A''] = \<lparr>total = 1, approved = 1, pending = 0\<rparr>"
    by (simp add: commentStatsOf_def countStatus_def exampleComment_def)
  show ?thesis
    using fetchAnalytics_single_try [of eventNoData initialState]
    by (simp add: r p c b m initialState_def dashboard.equality)
qed

text \<open>
  Claim C1 as stated fails when the events fetch raises: the posts and category
  fetches would have produced two top posts and two categories, yet both lists stay
  empty, because the fetches after the failing one are never issued.
\<close>

theorem event_failure_counterexample:
  "events eventFailure = Throws \<and>
   posts eventFailure = Data [examplePost ''published'' ''A'', examplePost ''published'' ''B''] \<and>
   postsWithComments eventFailure [examplePost ''published'' ''A'', examplePost ''published'' ''B'']
     = Some [\<lparr>tp_title = ''About A'', tp_comments = 1\<rparr>, \<lparr>tp_title = ''About B'', tp_comments = 0\<rparr>] \<and>
   topPosts (fetchAnalytics eventFailure initialState) = [] \<and>
   allPosts eventFailure
     = Data [examplePost ''published'' ''A'', examplePost ''published'' ''A'',
             examplePost ''published'' ''B''] \<and>
   categoryData [examplePost ''published'' ''A'', examplePost ''published'' ''A'',
                 examplePost ''published'' ''B'']
     = [\<lparr>name = ''A'', views = Num 2, percentage = Fin 67\<rparr>,
        \<lparr>name = ''B'', views = Num 1, percentage = Fin 33\<rparr>] \<and>
   categoryPerformance (fetchAnalytics eventFailure initialState) = []"
proof -
  have c: "categoryData [examplePost ''published'' ''A'', examplePost ''published'' ''A'',
                 examplePost ''published'' ''B'']
     = [\<lparr>name = ''A'', views = Num 2, percentage = Fin 67\<rparr>,
        \<lparr>name = ''B'', views = Num 1, percentage = Fin 33\<rparr>]"
    by code_simp
  have p: "postsWithComments eventFailure [examplePost ''published'' ''A'', examplePost ''published'' ''B'']
     = Some [\<lparr>tp_title = ''About A'', tp_comments = 1\<rparr>, \<lparr>tp_title = ''About B'', tp_comments = 0\<rparr>]"
    by (simp add: postsWithComments_Some eventFailure_def exampleResponses_def examplePost_def)
  have f: "topPosts (fetchAnalytics eventFailure initialState) = [] \<and>
           categoryPerformance (fetchAnalytics eventFailure initialState) = []"
    by (simp add: fetchAnalytics_def fetchBlogStats_def fetchCommentStats_def fetchEventStats_def
        eventFailure_def exampleResponses_def initialState_def)
  show ?thesis using c p f by (simp add: eventFailure_def exampleResponses_def)
qed


section \<open>Rounding error of binary64 arithmetic\<close>

lemma round_half_even_bounds:
  assumes "0 < d"
  shows "2 * round_half_even n d * d \<le> 2 * n + d" and "2 * n \<le> 2 * round_half_even n d * d + d"
proof -
  define q r where "q = n div d" and "r = n mod d"
  have n: "n = q * d + r" by (simp add: q_def r_def)
  have r: "0 \<le> r" "r < d" using assms by (simp_all add: r_def)
  have m: "round_half_even n d = q \<and> 2 * r \<le> d \<or> round_half_even n d = q + 1 \<and> d \<le> 2 * r"
    by (auto simp: round_half_even_def Let_def q_def r_def)
  then show "2 * round_half_even n d * d \<le> 2 * n + d"
    using r by (auto simp: n algebra_simps)
  from m show "2 * n \<le> 2 * round_half_even n d * d + d"
    using r by (auto simp: n algebra_simps)
qed

lemma round_half_even_rat:
  assumes "0 < d"
  shows "\<bar>of_int (round_half_even n d) - (of_int n / of_int d :: rat)\<bar> \<le> 1 / 2"
proof -
  let ?m = "of_int (round_half_even n d) :: rat"
  let ?d = "of_int d :: rat" and ?n = "of_int n :: rat"
  have d: "0 < ?d" using assms by simp
  have "of_int (2 * round_half_even n d * d) \<le> (of_int (2 * n + d) :: rat)"
    using round_half_even_bounds(1)[OF assms, of n] by (simp only: of_int_le_iff)
  then have a: "2 * ?m * ?d \<le> 2 * ?n + ?d" by simp
  have "of_int (2 * n) \<le> (of_int (2 * round_half_even n d * d + d) :: rat)"
    using round_half_even_bounds(2)[OF assms, of n] by (simp only: of_int_le_iff)
  then have b: "2 * ?n \<le> 2 * ?m * ?d + ?d" by simp
  have "?m - ?n / ?d = (2 * ?m * ?d - 2 * ?n) / (2 * ?d)"
    using d by (simp add: field_simps)
  moreover have "\<bar>(2 * ?m * ?d - 2 * ?n) / (2 * ?d)\<bar> \<le> 1 / 2"
  proof -
    have "\<bar>2 * ?m * ?d - 2 * ?n\<bar> \<le> ?d" using a b by linarith
    then have "\<bar>2 * ?m * ?d - 2 * ?n\<bar> / (2 * ?d) \<le> ?d / (2 * ?d)"
      using d by (intro divide_right_mono) simp_all
    then show ?thesis using d by (simp add: abs_divide)
  qed
  ultimately show ?thesis by simp
qed


lemma binary64_quot_error:
  assumes "0 < n" "0 < d"
  shows "\<bar>binary64_quot n d - of_int n / of_int d\<bar> \<le> (of_int n / of_int d) / 2 ^ 53"
proof -
  define bn bd where "bn = nat (bitlen n)" and "bd = nat (bitlen d)"
  define s :: nat where "s = (if n * 2 ^ bd < d * 2 ^ bn then 1 else 0)"
  define k where "k = 52 + bd + s"
  define D N where "D = d * 2 ^ bn" and "N = n * 2 ^ k"
  define m where "m = round_half_even N D"
  have v: "binary64_quot n d = of_int (m * 2 ^ bn) / of_int (2 ^ k)"
    using assms(1)
    by (simp add: binary64_quot_def Let_def bn_def bd_def s_def k_def D_def N_def m_def)
  have D: "0 < D" using assms(2) by (simp add: D_def)
  have le: "d * 2 ^ bn \<le> n * 2 ^ (bd + s)"
  proof (cases "n * 2 ^ bd < d * 2 ^ bn")
    case False
    then show ?thesis by (simp add: s_def)
  next
    case True
    have "d * 2 ^ bn \<le> 2 ^ bd * 2 ^ bn"
      using bitlen_pos_bounds(2)[OF assms(2)] by (intro mult_right_mono) (simp_all add: bd_def)
    also have "\<dots> \<le> 2 ^ bd * (2 * n)"
      using bitlen_pos_bounds(1)[OF assms(1)] by (intro mult_left_mono) (simp_all add: bn_def)
    also have "\<dots> = n * 2 ^ (bd + 1)" by simp
    finally show ?thesis using True by (simp add: s_def)
  qed
  have big: "2 ^ 52 * D \<le> N"
  proof -
    have "2 ^ 52 * (d * 2 ^ bn) \<le> 2 ^ 52 * (n * 2 ^ (bd + s))"
      using le by (intro mult_left_mono) simp_all
    also have "\<dots> = n * 2 ^ k" by (simp add: k_def power_add)
    finally show ?thesis by (simp add: D_def N_def)
  qed
  define X :: rat where "X = of_int N / of_int D"
  define c :: rat where "c = 2 ^ bn / 2 ^ k"
  have c: "0 < c" by (simp add: c_def)
  have "of_int (2 ^ 52 * D) \<le> (of_int N :: rat)" using big by (simp only: of_int_le_iff)
  then have X: "2 ^ 52 \<le> X" using D by (simp add: X_def pos_le_divide_eq)
  have q: "of_int n / of_int d = X * c"
    using assms by (simp add: X_def c_def N_def D_def)
  have vv: "binary64_quot n d = of_int m * c" by (simp add: v c_def)
  have "\<bar>of_int m - X\<bar> \<le> 1 / 2"
    unfolding m_def X_def by (rule round_half_even_rat[OF D])
  also have "1 / 2 \<le> X / 2 ^ 53" using X by simp
  finally have "\<bar>of_int m - X\<bar> * c \<le> X / 2 ^ 53 * c"
    using c by (intro mult_right_mono) simp_all
  moreover have "\<bar>binary64_quot n d - of_int n / of_int d\<bar> = \<bar>of_int m - X\<bar> * c"
    using c by (simp add: vv q left_diff_distrib[symmetric] abs_mult)
  ultimately show ?thesis by (simp add: q)
qed

lemma binary64_error:
  assumes "0 < q"
  shows "\<bar>binary64 q - q\<bar> \<le> q / 2 ^ 53"
proof -
  obtain n d where nd: "quotient_of q = (n, d)" by (cases "quotient_of q")
  then have d: "0 < d" and q: "q = of_int n / of_int d"
    by (simp_all add: quotient_of_denom_pos quotient_of_div)
  have n: "0 < n" using assms d by (simp add: q zero_less_divide_iff)
  have "binary64 q = binary64_quot n d" using n by (simp add: binary64_def nd)
  with binary64_quot_error[OF n d] show ?thesis by (simp only: q[symmetric])
qed


lemma percentage_error:
  assumes "0 < c" "c \<le> t"
  shows "\<bar>binary64 (binary64_quot (int c) (int t) * 100) - 100 * of_nat c / of_nat t\<bar>
         \<le> 201 / 2 ^ 53"
proof -
  define r :: rat where "r = of_nat c / of_nat t"
  define a where "a = binary64_quot (int c) (int t)"
  have t: "0 < t" using assms by simp
  have r0: "0 < r" using assms t by (simp add: r_def)
  have r1: "r \<le> 1" using assms t by (simp add: r_def)
  have "\<bar>a - of_int (int c) / of_int (int t)\<bar> \<le> (of_int (int c) / of_int (int t)) / 2 ^ 53"
    unfolding a_def using assms t by (intro binary64_quot_error) simp_all
  then have e1: "\<bar>a - r\<bar> \<le> r / 2 ^ 53" by (simp add: r_def)
  have r53: "r / 2 ^ 53 \<le> 1 / 2 ^ 53" using r1 by (simp add: divide_right_mono)
  have r53': "r / 2 ^ 53 < r" using r0 by simp
  have a0: "0 < a" using e1 r53' by linarith
  have a1: "a \<le> 1 + 1 / 2 ^ 53" using e1 r53 r1 by linarith
  have "\<bar>binary64 (a * 100) - a * 100\<bar> \<le> (a * 100) / 2 ^ 53"
    using a0 by (intro binary64_error) simp
  also have "(a * 100) / 2 ^ 53 \<le> ((1 + 1 / 2 ^ 53) * 100) / 2 ^ 53"
    using a1 by (intro divide_right_mono mult_right_mono) simp_all
  also have "\<dots> \<le> 101 / 2 ^ 53" by simp
  finally have e2: "\<bar>binary64 (a * 100) - a * 100\<bar> \<le> 101 / 2 ^ 53" .
  have e3: "\<bar>a * 100 - r * 100\<bar> \<le> 100 / 2 ^ 53"
    using e1 r53 by linarith
  have "\<bar>binary64 (a * 100) - r * 100\<bar> \<le> 201 / 2 ^ 53"
    using e2 e3 by linarith
  then show ?thesis by (simp add: a_def r_def mult.commute)
qed

lemma floor_near_quotient:
  fixes z :: rat and N M :: int
  assumes "0 < M" and "\<bar>z - of_int N / of_int M\<bar> < 1 / of_int M"
  shows "N mod M \<noteq> 0 \<Longrightarrow> \<lfloor>z\<rfloor> = N div M"
    and "N mod M = 0 \<Longrightarrow>
         \<lfloor>z\<rfloor> = (if z < of_int N / of_int M then N div M - 1 else N div M)"
proof -
  define n \<rho> where "n = N div M" and "\<rho> = N mod M"
  have N: "N = n * M + \<rho>" by (simp add: n_def \<rho>_def)
  have \<rho>: "0 \<le> \<rho>" "\<rho> < M" using assms(1) by (simp_all add: \<rho>_def)
  have M: "(0::rat) < of_int M" using assms(1) by simp
  have q: "(of_int N / of_int M :: rat) = of_int n + of_int \<rho> / of_int M"
    using M by (simp add: N field_simps)
  {
    assume "N mod M \<noteq> 0"
    then have "1 \<le> \<rho>" "\<rho> \<le> M - 1" using \<rho> by (simp_all add: \<rho>_def)
    then have "(1::rat) \<le> of_int \<rho>" "(of_int \<rho> :: rat) \<le> of_int M - 1"
      by (metis of_int_1_le_iff, metis of_int_le_iff of_int_diff of_int_1)
    then have "1 / of_int M \<le> (of_int \<rho> / of_int M :: rat)"
      and "(of_int \<rho> / of_int M :: rat) \<le> (of_int M - 1) / of_int M"
      using M by (simp_all add: divide_right_mono)
    moreover have "(of_int M - 1) / of_int M = (1::rat) - 1 / of_int M"
      using M by (simp add: field_simps)
    ultimately have "of_int n \<le> z" "z < of_int n + 1"
      using assms(2) q by linarith+
    then show "\<lfloor>z\<rfloor> = N div M" unfolding n_def[symmetric] by (rule floor_unique)
  }
  {
    assume "N mod M = 0"
    then have e: "(of_int N / of_int M :: rat) = of_int n" using q by (simp add: \<rho>_def)
    moreover have "1 / (of_int M :: rat) \<le> 1" using assms(1) by simp
    ultimately have b: "of_int n - 1 < z" "z < of_int n + 1" using assms(2) by linarith+
    show "\<lfloor>z\<rfloor> = (if z < of_int N / of_int M then N div M - 1 else N div M)"
    proof (cases "z < of_int n")
      case True
      then have "of_int (n - 1) \<le> z" "z < of_int (n - 1) + 1" using b by simp_all
      then have "\<lfloor>z\<rfloor> = n - 1" by (rule floor_unique)
      with True show ?thesis by (simp add: e n_def)
    next
      case False
      then have "of_int n \<le> z" "z < of_int n + 1" using b by simp_all
      then have "\<lfloor>z\<rfloor> = n" by (rule floor_unique)
      with False show ?thesis by (simp add: e n_def)
    qed
  }
qed

lemma round_half_up_percentage_div:
  assumes "0 < t"
  shows "round_half_up_percentage c t = (200 * int c + int t) div (2 * int t)"
proof -
  have "(100 * of_nat c / of_nat t :: rat) + 1 / 2
        = of_int (200 * int c + int t) / of_int (2 * int t)"
    using assms by (simp add: field_simps)
  then show ?thesis
    unfolding round_half_up_percentage_def by (simp only: floor_divide_of_int_eq)
qed

lemma percentage_of_count:
  assumes "0 < c" "c \<le> t" "t < 2 ^ 32"
  shows "Math_round (times100 (js_div (Num c) t))
         = Fin (of_int \<lfloor>binary64 (binary64_quot (int c) (int t) * 100) + 1 / 2\<rfloor>)"
    and "\<lfloor>binary64 (binary64_quot (int c) (int t) * 100) + 1 / 2\<rfloor>
         = (if (200 * c + t) mod (2 * t) = 0 \<and>
               binary64 (binary64_quot (int c) (int t) * 100) < 100 * of_nat c / of_nat t
            then round_half_up_percentage c t - 1 else round_half_up_percentage c t)"
    and "\<bar>of_int \<lfloor>binary64 (binary64_quot (int c) (int t) * 100) + 1 / 2\<rfloor>
          - (100 * of_nat c / of_nat t :: rat)\<bar> \<le> 1 / 2"
proof -
  define x' where "x' = binary64 (binary64_quot (int c) (int t) * 100)"
  define N M where "N = 200 * int c + int t" and "M = 2 * int t"
  define p where "p = \<lfloor>x' + 1 / 2\<rfloor>"
  have t: "0 < t" using assms by simp
  have M: "0 < M" using t by (simp add: M_def)
  have z: "(100 * of_nat c / of_nat t :: rat) + 1 / 2 = of_int N / of_int M"
    using t by (simp add: N_def M_def field_simps)
  have mr: "Math_round (times100 (js_div (Num c) t)) = Fin (of_int p)"
    using t by (simp add: js_div_def p_def x'_def)
  have "int t < 2 ^ 32" using assms(3) by (metis of_nat_less_numeral_power_cancel_iff)
  then have "402 * int t < 2 ^ 53" by simp
  then have "(of_int (402 * int t) :: rat) < of_int (2 ^ 53)" by (simp only: of_int_less_iff)
  then have "(201 / 2 ^ 53 :: rat) < 1 / of_int M"
    using t by (simp add: M_def field_simps)
  with percentage_error[OF assms(1,2)]
  have near: "\<bar>(x' + 1 / 2) - of_int N / of_int M\<bar> < 1 / of_int M"
    unfolding x'_def[symmetric] z[symmetric] by linarith
  have spec: "round_half_up_percentage c t = N div M"
    using t by (simp add: round_half_up_percentage_div N_def M_def)
  have tie: "((200 * c + t) mod (2 * t) = 0) = (N mod M = 0)"
  proof -
    have "N mod M = int ((200 * c + t) mod (2 * t))"
      by (simp add: N_def M_def zmod_int)
    then show ?thesis by simp
  qed
  have below: "(x' < 100 * of_nat c / of_nat t) = (x' + 1 / 2 < of_int N / of_int M)"
    unfolding z[symmetric] by linarith
  have cases: "p = (if N mod M = 0 \<and> x' + 1 / 2 < of_int N / of_int M
                    then N div M - 1 else N div M)"
  proof (cases "N mod M = 0")
    case True
    then show ?thesis using floor_near_quotient(2)[OF M near True] by (simp add: p_def)
  next
    case False
    then show ?thesis using floor_near_quotient(1)[OF M near False] by (simp add: p_def)
  qed
  from cases
  have cases': "p = (if N mod M = 0 \<and> x' < 100 * of_nat c / of_nat t
                     then N div M - 1 else N div M)"
    by (simp only: below)
  have half: "\<bar>of_int p - (100 * of_nat c / of_nat t :: rat)\<bar> \<le> 1 / 2"
  proof (cases "p = N div M")
    case True
    then have "p = \<lfloor>(100 * of_nat c / of_nat t :: rat) + 1 / 2\<rfloor>"
      using spec by (simp add: round_half_up_percentage_def)
    then show ?thesis by linarith
  next
    case False
    with cases have m0: "N mod M = 0" and pm: "p = N div M - 1" by (auto split: if_splits)
    from m0 have "N = N div M * M" by (simp add: dvd_eq_mod_eq_0)
    then have "(of_int N :: rat) = of_int (N div M) * of_int M"
      by (metis of_int_mult)
    then have "(of_int N / of_int M :: rat) = of_int (N div M)"
      using M by simp
    with z pm have "(100 * of_nat c / of_nat t :: rat) + 1 / 2 = of_int p + 1" by simp
    then show ?thesis by linarith
  qed
  show "Math_round (times100 (js_div (Num c) t))
         = Fin (of_int \<lfloor>binary64 (binary64_quot (int c) (int t) * 100) + 1 / 2\<rfloor>)"
    using mr by (simp only: p_def x'_def)
  show "\<lfloor>binary64 (binary64_quot (int c) (int t) * 100) + 1 / 2\<rfloor>
         = (if (200 * c + t) mod (2 * t) = 0 \<and>
               binary64 (binary64_quot (int c) (int t) * 100) < 100 * of_nat c / of_nat t
            then round_half_up_percentage c t - 1 else round_half_up_percentage c t)"
    using cases' unfolding spec tie p_def x'_def .
  show "\<bar>of_int \<lfloor>binary64 (binary64_quot (int c) (int t) * 100) + 1 / 2\<rfloor>
          - (100 * of_nat c / of_nat t :: rat)\<bar> \<le> 1 / 2"
    using half unfolding p_def x'_def .
qed

section \<open>Category groups and percentages\<close>

lemma categoryCounts_snoc:
  "categoryCounts (rows @ [p]) = bump (categoryCounts rows) (category p)"
  by (simp add: categoryCounts_def)

lemma proto_not_method: "''__proto__'' \<notin> set Object_prototype_keys"
  by (simp add: Object_prototype_keys_def)

lemma map_of_bump:
  "map_of (bump acc k) =
     (case map_of acc k of
        Some (Num n) \<Rightarrow> (map_of acc)(k \<mapsto> Num (n + 1))
      | Some (Text q n) \<Rightarrow> (map_of acc)(k \<mapsto> Text q (n + 1))
      | None \<Rightarrow>
          if k = ''__proto__'' then map_of acc
          else if k \<in> set Object_prototype_keys then (map_of acc)(k \<mapsto> Text k 1)
          else (map_of acc)(k \<mapsto> Num 1))"
  by (simp add: bump_def update_conv' split: option.splits jsvalue.splits)

lemma map_of_categoryCounts:
  "map_of (categoryCounts rows) k =
     (if count_list (map category rows) k = 0 \<or> k = ''__proto__'' then None
      else if k \<in> set Object_prototype_keys
           then Some (Text k (count_list (map category rows) k))
           else Some (Num (count_list (map category rows) k)))"
proof (induction rows arbitrary: k rule: rev_induct)
  case Nil
  then show ?case by (simp add: categoryCounts_def)
next
  case (snoc p rows)
  show ?case
    by (simp add: categoryCounts_snoc map_of_bump snoc.IH proto_not_method)
qed


lemma keys_bump:
  "map fst (bump acc k) =
     (if k \<in> fst ` set acc then map fst acc
      else if k = ''__proto__'' then map fst acc else map fst acc @ [k])"
proof (cases "map_of acc k")
  case None
  then have "k \<notin> fst ` set acc" by (simp add: map_of_eq_None_iff)
  with None show ?thesis by (simp add: bump_def update_keys)
next
  case (Some v)
  then have "k \<in> fst ` set acc" by (metis map_of_eq_None_iff option.distinct(1))
  with Some show ?thesis by (cases v) (simp_all add: bump_def update_keys)
qed

lemma keys_categoryCounts:
  "map fst (categoryCounts rows)
   = rev (remdups (rev (filter (\<lambda>k. k \<noteq> ''__proto__'') (map category rows))))"
proof (induction rows rule: rev_induct)
  case Nil
  then show ?case by (simp add: categoryCounts_def)
next
  case (snoc p rows)
  have "fst ` set (categoryCounts rows)
        = set (filter (\<lambda>k. k \<noteq> ''__proto__'') (map category rows))"
    using arg_cong[OF snoc.IH, of set] by simp
  then show ?case
    using snoc.IH by (auto simp: categoryCounts_snoc keys_bump)
qed

lemma distinct_keys_categoryCounts: "distinct (map fst (categoryCounts rows))"
  by (simp add: keys_categoryCounts)

lemma mset_Object_entries: "mset (Object_entries obj) = mset obj"
proof -
  have "mset (Object_entries obj)
        = filter_mset (\<lambda>(k, v). array_index k \<noteq> None) (mset obj)
          + filter_mset (\<lambda>(k, v). array_index k = None) (mset obj)"
    by (simp add: Object_entries_def)
  also have "\<dots> = mset obj"
    using multiset_partition[of "mset obj" "\<lambda>(k, v). array_index k \<noteq> None"]
    by (simp add: case_prod_unfold)
  finally show ?thesis .
qed

lemma set_Object_entries: "set (Object_entries obj) = set obj"
  using arg_cong[OF mset_Object_entries, of set_mset obj] by simp

lemma distinct_keys_Object_entries:
  "distinct (map fst (Object_entries obj)) = distinct (map fst obj)"
proof -
  have "mset (map fst (Object_entries obj)) = mset (map fst obj)"
    by (simp add: mset_Object_entries)
  then show ?thesis by (rule mset_eq_imp_distinct_iff)
qed

lemma map_insort_key:
  "map g (insort_key (\<lambda>x. f (g x)) x xs) = insort_key f (g x) (map g xs)"
  by (induction xs) simp_all

lemma map_sort_key: "map g (sort_key (\<lambda>x. f (g x)) xs) = sort_key f (map g xs)"
  by (induction xs) (simp_all add: map_insort_key)

lemma keys_Object_entries:
  "map fst (Object_entries obj)
   = sort_key (\<lambda>k. the (array_index k)) (filter (\<lambda>k. array_index k \<noteq> None) (map fst obj))
     @ filter (\<lambda>k. array_index k = None) (map fst obj)"
proof -
  have "map fst (sort_key (\<lambda>(k, v). the (array_index k)) (filter (\<lambda>(k, v). array_index k \<noteq> None) obj))
        = sort_key (\<lambda>k. the (array_index k)) (map fst (filter (\<lambda>(k, v). array_index k \<noteq> None) obj))"
    using map_sort_key[of fst "\<lambda>k. the (array_index k)"] by (simp add: case_prod_unfold)
  then show ?thesis
    by (simp add: Object_entries_def filter_map comp_def case_prod_unfold)
qed


lemma count_list_map_filter: "count_list (map f xs) k = length (filter (\<lambda>x. f x = k) xs)"
  by (induction xs) simp_all

lemma categoryData_canonical:
  assumes "\<forall>p\<in>set rows. category p \<noteq> ''__proto__'' \<and> category p \<notin> set Object_prototype_keys"
  shows "categoryData rows
         = map (\<lambda>k. \<lparr>name = k, views = Num (count_list (map category rows) k),
                       percentage = Math_round (times100
                         (js_div (Num (count_list (map category rows) k)) (length rows)))\<rparr>)
               (map fst (Object_entries (categoryCounts rows)))"
    and "set (map fst (Object_entries (categoryCounts rows))) = category ` set rows"
    and "distinct (map fst (Object_entries (categoryCounts rows)))"
proof -
  let ?cc = "categoryCounts rows"
  have val: "v = Num (count_list (map category rows) k)" if "(k, v) \<in> set (Object_entries ?cc)" for k v
  proof -
    from that have "(k, v) \<in> set ?cc" by (simp add: set_Object_entries)
    then have m: "map_of ?cc k = Some v"
      using distinct_keys_categoryCounts[of rows] by simp
    then have "count_list (map category rows) k \<noteq> 0"
      by (auto simp: map_of_categoryCounts split: if_splits)
    then have "k \<in> category ` set rows" by (simp add: count_list_0_iff)
    then have "k \<noteq> ''__proto__'' \<and> k \<notin> set Object_prototype_keys" using assms by auto
    with m show ?thesis by (auto simp: map_of_categoryCounts split: if_splits)
  qed
  show "categoryData rows
         = map (\<lambda>k. \<lparr>name = k, views = Num (count_list (map category rows) k),
                       percentage = Math_round (times100
                         (js_div (Num (count_list (map category rows) k)) (length rows)))\<rparr>)
               (map fst (Object_entries (categoryCounts rows)))"
    unfolding categoryData_def Let_def map_map
    by (rule map_cong[OF refl]) (auto dest: val)
  have "fst ` set ?cc = {k. map_of ?cc k \<noteq> None}"
    by (auto simp: map_of_eq_None_iff)
  also have "\<dots> = category ` set rows"
    using assms by (auto simp: map_of_categoryCounts count_list_0_iff)
  finally show "set (map fst (Object_entries (categoryCounts rows))) = category ` set rows"
    by (simp add: set_Object_entries)
  show "distinct (map fst (Object_entries (categoryCounts rows)))"
    by (simp add: distinct_keys_Object_entries distinct_keys_categoryCounts)
qed

lemma abs_sum_list_le:
  fixes b :: rat
  shows "(\<forall>x\<in>set xs. \<bar>f x\<bar> \<le> b) \<Longrightarrow> \<bar>sum_list (map f xs)\<bar> \<le> of_nat (length xs) * b"
proof (induction xs)
  case Nil
  show ?case by simp
next
  case (Cons x xs)
  then have "\<bar>f x\<bar> \<le> b" and "\<bar>sum_list (map f xs)\<bar> \<le> of_nat (length xs) * b" by simp_all
  then have "\<bar>f x + sum_list (map f xs)\<bar> \<le> b + of_nat (length xs) * b" by linarith
  then show ?case by (simp add: algebra_simps)
qed

lemma sum_list_scaled:
  fixes a b :: rat
  shows "sum_list (map (\<lambda>k. a * of_nat (f k) / b) ks) = a * of_nat (sum_list (map f ks)) / b"
  by (induction ks) (simp_all add: add_divide_distrib distrib_left)

lemma of_int_sum_list_map:
  "(of_int (sum_list (map f ks)) :: rat) = sum_list (map (\<lambda>k. of_int (f k)) ks)"
  by (induction ks) simp_all

lemma sum_counts_distinct:
  assumes "distinct ks" and "set ks = set cats"
  shows "sum_list (map (count_list cats) ks) = length cats"
proof -
  have "sum_list (map (count_list cats) ks) = sum (count_list cats) (set ks)"
    using assms(1) by (rule sum_list_distinct_conv_sum_set)
  also have "\<dots> = length cats"
    using assms(2) by (intro sum_count_set) simp_all
  finally show ?thesis .
qed


text \<open>
  Claim C5, amended. Take a non-empty set of fewer than \<open>2\<^sup>3\<^sup>2\<close> published posts none of
  whose categories is \<open>__proto__\<close> or the name of a method of \<open>Object.prototype\<close>. There
  is exactly one group per distinct category, and its count is the number of posts of
  that category. Its percentage is \<open>Math.round\<close> of the binary64 product
  \<open>(count / total) * 100\<close>. That is 100 \<times> count / total rounded half up, with one
  exception: when the exact value lies halfway between two integers and the binary64
  product falls below it, the percentage is the lower of the two. The percentages
  sum to 100 give or take the number of groups.
\<close>

theorem categoryData_counts_and_percentages:
  assumes "rows \<noteq> []" and "length rows < 2 ^ 32"
      and "\<forall>p\<in>set rows. category p \<noteq> ''__proto__'' \<and> category p \<notin> set Object_prototype_keys"
  shows "distinct (map name (categoryData rows)) \<and>
         name ` set (categoryData rows) = category ` set rows \<and>
         (\<forall>e\<in>set (categoryData rows).
            views e = Num (length (filter (\<lambda>p. category p = name e) rows)) \<and>
            percentage e
              = Math_round (times100
                  (js_div (Num (length (filter (\<lambda>p. category p = name e) rows))) (length rows))) \<and>
            percentage e
              = Fin (of_int \<lfloor>binary64 (binary64_quot
                        (int (length (filter (\<lambda>p. category p = name e) rows)))
                        (int (length rows)) * 100) + 1 / 2\<rfloor>) \<and>
            \<lfloor>binary64 (binary64_quot
                 (int (length (filter (\<lambda>p. category p = name e) rows)))
                 (int (length rows)) * 100) + 1 / 2\<rfloor>
              = (if (200 * length (filter (\<lambda>p. category p = name e) rows) + length rows)
                      mod (2 * length rows) = 0 \<and>
                    binary64 (binary64_quot
                      (int (length (filter (\<lambda>p. category p = name e) rows)))
                      (int (length rows)) * 100)
                    < 100 * of_nat (length (filter (\<lambda>p. category p = name e) rows))
                        / of_nat (length rows)
                 then round_half_up_percentage
                        (length (filter (\<lambda>p. category p = name e) rows)) (length rows) - 1
                 else round_half_up_percentage
                        (length (filter (\<lambda>p. category p = name e) rows)) (length rows))) \<and>
         (\<exists>ps. map percentage (categoryData rows) = map (\<lambda>p. Fin (of_int p)) ps \<and>
               \<bar>sum_list ps - 100\<bar> \<le> int (length ps))"
proof -
  define t where "t = length rows"
  define cnt where "cnt = count_list (map category rows)"
  define ks where "ks = map fst (Object_entries (categoryCounts rows))"
  define pI where "pI k = \<lfloor>binary64 (binary64_quot (int (cnt k)) (int t) * 100) + 1 / 2\<rfloor>" for k
  note can = categoryData_canonical[OF assms(3), folded ks_def cnt_def t_def]
  have t: "0 < t" "t < 2 ^ 32" using assms(1,2) by (simp_all add: t_def)
  have cnt: "0 < cnt k" "cnt k \<le> t" if "k \<in> set ks" for k
  proof -
    from that have "k \<in> set (map category rows)" using can(2) by simp
    then show "0 < cnt k" unfolding cnt_def by (metis count_list_0_iff gr0I)
    show "cnt k \<le> t" unfolding cnt_def t_def using count_le_length[of "map category rows" k] by simp
  qed
  have cntf: "cnt k = length (filter (\<lambda>p. category p = k) rows)" for k
    by (simp add: cnt_def count_list_map_filter)
  have form: "categoryData rows
              = map (\<lambda>k. \<lparr>name = k, views = Num (cnt k), percentage = Fin (of_int (pI k))\<rparr>) ks"
    unfolding can(1) pI_def
    by (rule map_cong[OF refl]) (simp add: percentage_of_count(1)[OF cnt t(2)])
  have names: "map name (categoryData rows) = ks" by (simp add: form comp_def)
  have c1: "distinct (map name (categoryData rows))" using can(3) by (simp only: names)
  have c2: "name ` set (categoryData rows) = category ` set rows"
    using can(2) arg_cong[OF names, of set] by simp
  have c3: "\<forall>e\<in>set (categoryData rows).
            views e = Num (cnt (name e)) \<and>
            percentage e = Math_round (times100 (js_div (Num (cnt (name e))) t)) \<and>
            percentage e
              = Fin (of_int \<lfloor>binary64 (binary64_quot (int (cnt (name e))) (int t) * 100) + 1 / 2\<rfloor>) \<and>
            \<lfloor>binary64 (binary64_quot (int (cnt (name e))) (int t) * 100) + 1 / 2\<rfloor>
              = (if (200 * cnt (name e) + t) mod (2 * t) = 0 \<and>
                    binary64 (binary64_quot (int (cnt (name e))) (int t) * 100)
                    < 100 * of_nat (cnt (name e)) / of_nat t
                 then round_half_up_percentage (cnt (name e)) t - 1
                 else round_half_up_percentage (cnt (name e)) t)"
  proof
    fix e
    assume "e \<in> set (categoryData rows)"
    then obtain k where k: "k \<in> set ks"
      and e: "e = \<lparr>name = k, views = Num (cnt k), percentage = Fin (of_int (pI k))\<rparr>"
      by (auto simp: form)
    have n: "name e = k" and v: "views e = Num (cnt k)"
      and p: "percentage e = Fin (of_int (pI k))"
      by (simp_all add: e)
    note poc = percentage_of_count[OF cnt[OF k] t(2)]
    show "views e = Num (cnt (name e)) \<and>
          percentage e = Math_round (times100 (js_div (Num (cnt (name e))) t)) \<and>
          percentage e
            = Fin (of_int \<lfloor>binary64 (binary64_quot (int (cnt (name e))) (int t) * 100) + 1 / 2\<rfloor>) \<and>
          \<lfloor>binary64 (binary64_quot (int (cnt (name e))) (int t) * 100) + 1 / 2\<rfloor>
            = (if (200 * cnt (name e) + t) mod (2 * t) = 0 \<and>
                  binary64 (binary64_quot (int (cnt (name e))) (int t) * 100)
                  < 100 * of_nat (cnt (name e)) / of_nat t
               then round_half_up_percentage (cnt (name e)) t - 1
               else round_half_up_percentage (cnt (name e)) t)"
      unfolding n
    proof (intro conjI)
      show "views e = Num (cnt k)" by (rule v)
      show "percentage e = Math_round (times100 (js_div (Num (cnt k)) t))"
        unfolding p poc(1) pI_def ..
      show "percentage e
            = Fin (of_int \<lfloor>binary64 (binary64_quot (int (cnt k)) (int t) * 100) + 1 / 2\<rfloor>)"
        unfolding p pI_def ..
      show "\<lfloor>binary64 (binary64_quot (int (cnt k)) (int t) * 100) + 1 / 2\<rfloor>
            = (if (200 * cnt k + t) mod (2 * t) = 0 \<and>
                  binary64 (binary64_quot (int (cnt k)) (int t) * 100)
                  < 100 * of_nat (cnt k) / of_nat t
               then round_half_up_percentage (cnt k) t - 1
               else round_half_up_percentage (cnt k) t)"
        by (rule poc(2))
    qed
  qed
  have c4: "\<exists>ps. map percentage (categoryData rows) = map (\<lambda>p. Fin (of_int p)) ps \<and>
               \<bar>sum_list ps - 100\<bar> \<le> int (length ps)"
  proof (intro exI[of _ "map pI ks"] conjI)
    show "map percentage (categoryData rows) = map (\<lambda>p. Fin (of_int p)) (map pI ks)"
      by (simp add: form comp_def)
    have total: "sum_list (map cnt ks) = t"
      unfolding cnt_def t_def using sum_counts_distinct[OF can(3), of "map category rows"] can(2)
      by simp
    have exact: "sum_list (map (\<lambda>k. 100 * of_nat (cnt k) / (of_nat t :: rat)) ks) = 100"
      using t(1) by (simp add: sum_list_scaled total)
    have "\<forall>k\<in>set ks. \<bar>of_int (pI k) - (100 * of_nat (cnt k) / of_nat t :: rat)\<bar> \<le> 1 / 2"
      unfolding pI_def using percentage_of_count(3)[OF cnt t(2)] by blast
    then have "\<bar>sum_list (map (\<lambda>k. of_int (pI k) - (100 * of_nat (cnt k) / of_nat t :: rat)) ks)\<bar>
               \<le> of_nat (length ks) * (1 / 2)"
      by (rule abs_sum_list_le)
    then have "\<bar>(of_int (sum_list (map pI ks)) :: rat) - 100\<bar> \<le> of_nat (length ks) * (1 / 2)"
      by (simp add: sum_list_subtractf of_int_sum_list_map exact)
    also have "\<dots> \<le> of_nat (length ks)" by simp
    finally have "(of_int \<bar>sum_list (map pI ks) - 100\<bar> :: rat) \<le> of_int (int (length ks))"
      by simp
    then have "\<bar>sum_list (map pI ks) - 100\<bar> \<le> int (length ks)"
      by (simp only: of_int_le_iff)
    then show "\<bar>sum_list (map pI ks) - 100\<bar> \<le> int (length (map pI ks))" by simp
  qed
  from c1 c2 c3[unfolded cntf t_def] c4 show ?thesis by (intro conjI)
qed

theorem categoryData_counts_and_percentages_witness:
  "[examplePost ''published'' ''A'', examplePost ''published'' ''A'', examplePost ''published'' ''B'']
     \<noteq> [] \<and>
   length [examplePost ''published'' ''A'', examplePost ''published'' ''A'',
           examplePost ''published'' ''B''] < 2 ^ 32 \<and>
   category (examplePost ''published'' ''A'') \<noteq> ''__proto__'' \<and>
   category (examplePost ''published'' ''A'') \<notin> set Object_prototype_keys \<and>
   category (examplePost ''published'' ''B'') \<noteq> ''__proto__'' \<and>
   category (examplePost ''published'' ''B'') \<notin> set Object_prototype_keys \<and>
   distinct (map name (categoryData [examplePost ''published'' ''A'', examplePost ''published'' ''A'',
                 examplePost ''published'' ''B''])) \<and>
   categoryData [examplePost ''published'' ''A'', examplePost ''published'' ''A'',
                 examplePost ''published'' ''B'']
     = [\<lparr>name = ''A'', views = Num 2, percentage = Fin 67\<rparr>,
        \<lparr>name = ''B'', views = Num 1, percentage = Fin 33\<rparr>] \<and>
   round_half_up_percentage 2 3 = 67 \<and> round_half_up_percentage 1 3 = 33 \<and>
   \<bar>sum_list [67, 33] - 100\<bar> \<le> int (length [67 :: int, 33])"
proof -
  let ?rows = "[examplePost ''published'' ''A'', examplePost ''published'' ''A'',
                examplePost ''published'' ''B'']"
  have c: "categoryData ?rows
     = [\<lparr>name = ''A'', views = Num 2, percentage = Fin 67\<rparr>,
        \<lparr>name = ''B'', views = Num 1, percentage = Fin 33\<rparr>]"
    by code_simp
  have r: "round_half_up_percentage 2 3 = 67" "round_half_up_percentage 1 3 = 33"
    by (simp_all add: round_half_up_percentage_div)
  have k: "category (examplePost ''published'' ''A'') \<noteq> ''__proto__''"
      "category (examplePost ''published'' ''A'') \<notin> set Object_prototype_keys"
      "category (examplePost ''published'' ''B'') \<noteq> ''__proto__''"
      "category (examplePost ''published'' ''B'') \<notin> set Object_prototype_keys"
    by (simp_all add: examplePost_def Object_prototype_keys_def)
  have h1: "?rows \<noteq> []" and h2: "length ?rows < 2 ^ 32" by simp_all
  have h3: "\<forall>p\<in>set ?rows. category p \<noteq> ''__proto__'' \<and> category p \<notin> set Object_prototype_keys"
    using k by simp
  have d: "distinct (map name (categoryData ?rows))"
    using categoryData_counts_and_percentages [OF h1 h2 h3] by (rule conjunct1)
  have s: "\<bar>sum_list [67, 33] - 100\<bar> \<le> int (length [67 :: int, 33])" by simp
  show ?thesis by (intro conjI h1 h2 k d c r s)
qed

text \<open>
  Claim C5 as stated fails: 23 posts of 40 are 57.5 percent, which rounds half up to
  58, but \<open>(23 / 40) * 100\<close> is 57.49999999999999 in binary64 and \<open>Math.round\<close> gives 57.
  And a category named \<open>constructor\<close> gets a string for its count and \<open>NaN\<close> for its
  percentage.
\<close>

theorem percentage_tie_counterexample:
  "categoryData (replicate 23 (examplePost ''published'' ''A'')
                 @ replicate 17 (examplePost ''published'' ''B''))
     = [\<lparr>name = ''A'', views = Num 23, percentage = Fin 57\<rparr>,
        \<lparr>name = ''B'', views = Num 17, percentage = Fin 43\<rparr>] \<and>
   round_half_up_percentage 23 40 = 58 \<and>
   categoryData [examplePost ''published'' ''constructor'']
     = [\<lparr>name = ''constructor'', views = Text ''constructor'' 1, percentage = NaN\<rparr>]"
proof -
  have a: "categoryData (replicate 23 (examplePost ''published'' ''A'')
                 @ replicate 17 (examplePost ''published'' ''B''))
     = [\<lparr>name = ''A'', views = Num 23, percentage = Fin 57\<rparr>,
        \<lparr>name = ''B'', views = Num 17, percentage = Fin 43\<rparr>]"
    by code_simp
  have b: "round_half_up_percentage 23 40 = 58"
    by (simp add: round_half_up_percentage_div)
  have c: "categoryData [examplePost ''published'' ''constructor'']
     = [\<lparr>name = ''constructor'', views = Text ''constructor'' 1, percentage = NaN\<rparr>]"
    by code_simp
  from a b c show ?thesis by (intro conjI)
qed

lemma categoryData_by_categories:
  "categoryData rows =
     map (\<lambda>(name, cnt).
            \<lparr>name = name, views = cnt,
             percentage = Math_round (times100 (js_div cnt (length (map category rows))))\<rparr>)
         (Object_entries (foldl bump [] (map category rows)))"
  by (simp add: categoryData_def categoryCounts_def foldl_map)

text \<open>
  Claim C8. The category data is a function of the sequence of categories alone, so
  two invocations on identical rows give identical sequences. The order of the groups
  is fixed by that sequence: categories that are array indices come first, ascending,
  then the others in order of first appearance.
\<close>

theorem categoryData_deterministic:
  "(map category rows = map category rows' \<longrightarrow> categoryData rows = categoryData rows') \<and>
   map name (categoryData rows)
     = sort_key (\<lambda>k. the (array_index k))
         (filter (\<lambda>k. array_index k \<noteq> None)
            (rev (remdups (rev (filter (\<lambda>k. k \<noteq> ''__proto__'') (map category rows))))))
       @ filter (\<lambda>k. array_index k = None)
           (rev (remdups (rev (filter (\<lambda>k. k \<noteq> ''__proto__'') (map category rows)))))"
proof -
  have "categoryData rows = categoryData rows'" if "map category rows = map category rows'"
    using that by (simp only: categoryData_by_categories)
  moreover have "map name (categoryData rows) = map fst (Object_entries (categoryCounts rows))"
    by (simp add: categoryData_def comp_def case_prod_unfold)
  ultimately show ?thesis
    by (simp add: keys_Object_entries keys_categoryCounts)
qed


theorem categoryData_deterministic_witness:
  "map category [examplePost ''published'' ''A'', examplePost ''published'' ''10'',
                 examplePost ''published'' ''A'', examplePost ''published'' ''2'']
     = map category [examplePost ''draft'' ''A'', examplePost ''draft'' ''10'',
                     examplePost ''draft'' ''A'', examplePost ''draft'' ''2''] \<and>
   categoryData [examplePost ''published'' ''A'', examplePost ''published'' ''10'',
                 examplePost ''published'' ''A'', examplePost ''published'' ''2'']
     = categoryData [examplePost ''draft'' ''A'', examplePost ''draft'' ''10'',
                     examplePost ''draft'' ''A'', examplePost ''draft'' ''2''] \<and>
   map name (categoryData [examplePost ''published'' ''A'', examplePost ''published'' ''10'',
                           examplePost ''published'' ''A'', examplePost ''published'' ''2''])
     = [''2'', ''10'', ''A'']"
proof -
  have m: "map category [examplePost ''published'' ''A'', examplePost ''published'' ''10'',
                 examplePost ''published'' ''A'', examplePost ''published'' ''2'']
     = map category [examplePost ''draft'' ''A'', examplePost ''draft'' ''10'',
                     examplePost ''draft'' ''A'', examplePost ''draft'' ''2'']"
    by (simp add: examplePost_def)
  have n: "map name (categoryData [examplePost ''published'' ''A'', examplePost ''published'' ''10'',
                           examplePost ''published'' ''A'', examplePost ''published'' ''2''])
     = [''2'', ''10'', ''A'']"
    by code_simp
  from categoryData_deterministic
      [of "[examplePost ''published'' ''A'', examplePost ''published'' ''10'',
            examplePost ''published'' ''A'', examplePost ''published'' ''2'']"
          "[examplePost ''draft'' ''A'', examplePost ''draft'' ''10'',
            examplePost ''draft'' ''A'', examplePost ''draft'' ''2'']"] m
  have "categoryData [examplePost ''published'' ''A'', examplePost ''published'' ''10'',
                 examplePost ''published'' ''A'', examplePost ''published'' ''2'']
     = categoryData [examplePost ''draft'' ''A'', examplePost ''draft'' ''10'',
                     examplePost ''draft'' ''A'', examplePost ''draft'' ''2'']"
    by blast
  with m n show ?thesis by (intro conjI)
qed

end
